theory Spec2Isabelle
  imports Main "HOL-Library.Log_Nat"
begin

section \<open>Python values used by the notebook\<close>

text \<open>
  The notebook \<^verbatim>\<open>IEinAI_probing_wav2vec2_student_version.ipynb\<close> is Python.
  Exceptions become values of \<open>error\<close>; a function that can raise returns
  \<open>error + 'a\<close> with \<open>Inl\<close> for the exception.
\<close>

datatype error = OverflowError | ZeroDivisionError | IndexError | KeyError | ValueError

subsection \<open>Binary64 division\<close>

text \<open>
  \<^verbatim>\<open>(start / 16000) / 0.020\<close> is computed in IEEE-754 binary64: the first division
  is Python's true division of two ints, the second a division of two floats. Both
  return the double nearest to the exact quotient, ties to the even significand.
  A finite double is represented by the rational it denotes; \<open>None\<close> stands for a
  quotient beyond the largest finite double.
\<close>

definition pow2 :: "int \<Rightarrow> rat" where
  "pow2 e = (if 0 \<le> e then 2 ^ nat e else 1 / 2 ^ nat (- e))"

definition round_half_even :: "rat \<Rightarrow> int" where
  "round_half_even y =
     (let f = \<lfloor>y\<rfloor>; d = y - of_int f
      in if d < 1 / 2 then f
         else if 1 / 2 < d then f + 1
         else if even f then f else f + 1)"

text \<open>\<open>binade a\<close> is the integer \<open>k\<close> with \<open>2^k \<le> a < 2^(k+1)\<close>, for \<open>a > 0\<close>.\<close>

definition binade :: "rat \<Rightarrow> int" where
  "binade a =
     (let d = bitlen (fst (quotient_of a)) - bitlen (snd (quotient_of a))
      in if pow2 d \<le> a then d else d - 1)"

text \<open>
  Rounding to 53 significant bits, with the exponent of the last place no smaller
  than \<open>-1074\<close> (subnormal doubles) and overflow from \<open>2^1024\<close> on.
\<close>

definition fl_round :: "rat \<Rightarrow> rat option" where
  "fl_round x =
     (if x = 0 then Some 0
      else
        let a = \<bar>x\<bar>;
            e = max (binade a - 52) (- 1074);
            r = of_int (round_half_even (a / pow2 e)) * pow2 e
        in if pow2 1024 \<le> r then None else Some (sgn x * r))"

text \<open>\<^verbatim>\<open>a / b\<close> on ints raises OverflowError when the quotient is too large for a float.\<close>

definition int_truediv :: "int \<Rightarrow> int \<Rightarrow> error + rat" where
  "int_truediv a b =
     (if b = 0 then Inl ZeroDivisionError
      else case fl_round (of_int a / of_int b) of
             None \<Rightarrow> Inl OverflowError
           | Some r \<Rightarrow> Inr r)"

text \<open>\<^verbatim>\<open>x / y\<close> on floats overflows silently to an infinity (here \<open>None\<close>).\<close>

definition float_truediv :: "rat \<Rightarrow> rat \<Rightarrow> error + rat option" where
  "float_truediv x y =
     (if y = 0 then Inl ZeroDivisionError else Inr (fl_round (x / y)))"

text \<open>\<^verbatim>\<open>math.floor\<close> and \<^verbatim>\<open>math.ceil\<close> raise OverflowError on an infinity.\<close>

definition math_floor :: "rat option \<Rightarrow> error + int" where
  "math_floor v = (case v of None \<Rightarrow> Inl OverflowError | Some q \<Rightarrow> Inr \<lfloor>q\<rfloor>)"

definition math_ceil :: "rat option \<Rightarrow> error + int" where
  "math_ceil v = (case v of None \<Rightarrow> Inl OverflowError | Some q \<Rightarrow> Inr \<lceil>q\<rceil>)"

text \<open>The float literal \<^verbatim>\<open>0.020\<close>: the double \<open>0x1.47ae147ae147bp-6\<close>.\<close>

definition frame_length :: rat where
  "frame_length = 5764607523034235 / 288230376151711744"

subsection \<open>Lists, ranges and insertion-ordered dictionaries\<close>

text \<open>\<^verbatim>\<open>range(a, b)\<close> on ints; empty when \<open>b \<le> a\<close>.\<close>

definition py_range :: "int \<Rightarrow> int \<Rightarrow> int list" where
  "py_range a b = [a..b - 1]"

text \<open>\<^verbatim>\<open>xs[idx]\<close>: a negative index counts from the end, anything out of range raises.\<close>

definition list_getitem :: "'a list \<Rightarrow> int \<Rightarrow> error + 'a" where
  "list_getitem xs idx =
     (if 0 \<le> idx \<and> idx < int (length xs) then Inr (xs ! nat idx)
      else if idx < 0 \<and> - int (length xs) \<le> idx then Inr (xs ! nat (int (length xs) + idx))
      else Inl IndexError)"

text \<open>
  A dict keeps its keys in insertion order, so it is an association list with
  distinct keys. \<open>dd_extend d k xs\<close> is \<^verbatim>\<open>d[k].extend(xs)\<close> on a
  \<^verbatim>\<open>defaultdict(list)\<close>: a missing key is first inserted at the end with \<open>[]\<close>.
\<close>

fun dd_extend :: "('k \<times> 'a list) list \<Rightarrow> 'k \<Rightarrow> 'a list \<Rightarrow> ('k \<times> 'a list) list" where
  "dd_extend [] k xs = [(k, xs)]"
| "dd_extend ((k', v) # d) k xs =
     (if k' = k then (k', v @ xs) # d else (k', v) # dd_extend d k xs)"

text \<open>\<open>dict_set d k v\<close> is \<^verbatim>\<open>d[k] = v\<close>; \<open>dict_getitem d k\<close> is \<^verbatim>\<open>d[k]\<close> on a plain dict.\<close>

fun dict_set :: "('k \<times> 'a) list \<Rightarrow> 'k \<Rightarrow> 'a \<Rightarrow> ('k \<times> 'a) list" where
  "dict_set [] k v = [(k, v)]"
| "dict_set ((k', v') # d) k v =
     (if k' = k then (k', v) # d else (k', v') # dict_set d k v)"

definition dict_getitem :: "('k \<times> 'a) list \<Rightarrow> 'k \<Rightarrow> error + 'a" where
  "dict_getitem d k = (case map_of d k of None \<Rightarrow> Inl KeyError | Some v \<Rightarrow> Inr v)"

section \<open>Phoneme aligner: \<^verbatim>\<open>sort_states_per_phoneme\<close>\<close>

text \<open>
  \<^verbatim>\<open>data[waveform_idx]["phonetic_detail"]\<close> holds three parallel lists; the other
  fields of a corpus instance are not read by the aligner.
\<close>

record phonetic_detail =
  start :: "int list"
  stop :: "int list"
  utterance :: "string list"

text \<open>
  \<^verbatim>\<open>start_index = math.floor((start / 16000) / 0.020)\<close> and
  \<^verbatim>\<open>stop_index = math.ceil((stop / 16000) / 0.020)\<close>; \<open>frame_position\<close> is the
  float both round.
\<close>

definition frame_position :: "int \<Rightarrow> error + rat option" where
  "frame_position s =
     (case int_truediv s 16000 of
        Inl e \<Rightarrow> Inl e
      | Inr t \<Rightarrow> float_truediv t frame_length)"

definition start_index :: "int \<Rightarrow> error + int" where
  "start_index s = (case frame_position s of Inl e \<Rightarrow> Inl e | Inr v \<Rightarrow> math_floor v)"

definition stop_index :: "int \<Rightarrow> error + int" where
  "stop_index s = (case frame_position s of Inl e \<Rightarrow> Inl e | Inr v \<Rightarrow> math_ceil v)"

text \<open>
  The loop over \<^verbatim>\<open>zip(phonemes['start'], phonemes['stop'], phonemes['utterance'])\<close>
  that fills the \<^verbatim>\<open>defaultdict(list)\<close> \<^verbatim>\<open>phoneme_indeces\<close>.
\<close>

fun phoneme_indeces_loop ::
  "(int \<times> int \<times> string) list \<Rightarrow> (string \<times> int list) list \<Rightarrow> error + (string \<times> int list) list" where
  "phoneme_indeces_loop [] acc = Inr acc"
| "phoneme_indeces_loop ((s, t, phoneme) # rest) acc =
     (case start_index s of
        Inl e \<Rightarrow> Inl e
      | Inr si \<Rightarrow>
          (case stop_index t of
             Inl e \<Rightarrow> Inl e
           | Inr ti \<Rightarrow> phoneme_indeces_loop rest (dd_extend acc phoneme (py_range si ti))))"

definition segments :: "phonetic_detail \<Rightarrow> (int \<times> int \<times> string) list" where
  "segments phonemes = zip (start phonemes) (zip (stop phonemes) (utterance phonemes))"

definition phoneme_indeces :: "phonetic_detail \<Rightarrow> error + (string \<times> int list) list" where
  "phoneme_indeces phonemes = phoneme_indeces_loop (segments phonemes) []"

text \<open>\<^verbatim>\<open>[waveform[idx] for idx in indeces if idx < len(waveform)]\<close>\<close>

fun phoneme_states :: "'v list \<Rightarrow> int list \<Rightarrow> error + 'v list" where
  "phoneme_states waveform [] = Inr []"
| "phoneme_states waveform (idx # indeces) =
     (if idx < int (length waveform) then
        (case list_getitem waveform idx of
           Inl e \<Rightarrow> Inl e
         | Inr v \<Rightarrow>
             (case phoneme_states waveform indeces of
                Inl e \<Rightarrow> Inl e
              | Inr vs \<Rightarrow> Inr (v # vs)))
      else phoneme_states waveform indeces)"

text \<open>
  The loop over \<^verbatim>\<open>phoneme_indeces.items()\<close>:
  \<^verbatim>\<open>frame_states_per_phoneme[layer_idx][phoneme].extend(phoneme_states)\<close>. The outer
  dict is a plain dict over \<^verbatim>\<open>range(num_layers)\<close>, the inner ones are defaultdicts.
\<close>

type_synonym 'v phoneme_table = "(nat \<times> (string \<times> 'v list) list) list"

fun save_states ::
  "nat \<Rightarrow> 'v list \<Rightarrow> (string \<times> int list) list \<Rightarrow> 'v phoneme_table \<Rightarrow> error + 'v phoneme_table" where
  "save_states layer_idx waveform [] fspp = Inr fspp"
| "save_states layer_idx waveform ((phoneme, indeces) # rest) fspp =
     (case phoneme_states waveform indeces of
        Inl e \<Rightarrow> Inl e
      | Inr vs \<Rightarrow>
          (case dict_getitem fspp layer_idx of
             Inl e \<Rightarrow> Inl e
           | Inr d \<Rightarrow>
               save_states layer_idx waveform rest
                 (dict_set fspp layer_idx (dd_extend d phoneme vs))))"

text \<open>The loop over \<^verbatim>\<open>layer.items()\<close>, one waveform at a time.\<close>

fun waveforms_loop ::
  "phonetic_detail list \<Rightarrow> nat \<Rightarrow> (nat \<times> 'v list) list \<Rightarrow> 'v phoneme_table \<Rightarrow> error + 'v phoneme_table" where
  "waveforms_loop data layer_idx [] fspp = Inr fspp"
| "waveforms_loop data layer_idx ((waveform_idx, waveform) # rest) fspp =
     (if length data \<le> waveform_idx then Inl IndexError
      else
        (case phoneme_indeces (data ! waveform_idx) of
           Inl e \<Rightarrow> Inl e
         | Inr pidx \<Rightarrow>
             (case save_states layer_idx waveform pidx fspp of
                Inl e \<Rightarrow> Inl e
              | Inr fspp' \<Rightarrow> waveforms_loop data layer_idx rest fspp')))"

text \<open>The loop over \<^verbatim>\<open>frame_states.items()\<close>.\<close>

fun layers_loop ::
  "phonetic_detail list \<Rightarrow> (nat \<times> (nat \<times> 'v list) list) list \<Rightarrow> 'v phoneme_table \<Rightarrow> error + 'v phoneme_table" where
  "layers_loop data [] fspp = Inr fspp"
| "layers_loop data ((layer_idx, layer) # rest) fspp =
     (case waveforms_loop data layer_idx layer fspp of
        Inl e \<Rightarrow> Inl e
      | Inr fspp' \<Rightarrow> layers_loop data rest fspp')"

definition sort_states_per_phoneme ::
  "phonetic_detail list \<Rightarrow> (nat \<times> (nat \<times> 'v list) list) list \<Rightarrow> nat \<Rightarrow> error + 'v phoneme_table" where
  "sort_states_per_phoneme data frame_states num_layers =
     layers_loop data frame_states (map (\<lambda>layer_idx. (layer_idx, [])) [0..<num_layers])"

section \<open>Label collapser: \<^verbatim>\<open>phoneme_mapping\<close>\<close>

text \<open>The dict literal of the notebook, in its order.\<close>

definition phoneme_mapping :: "(string \<times> string) list" where
  "phoneme_mapping =
     [(''p'', ''p''), (''b'', ''b''), (''t'', ''t''), (''d'', ''d''), (''k'', ''k''),
      (''g'', ''g''), (''dx'', ''dx''), (''f'', ''f''), (''v'', ''v''), (''dh'', ''dh''),
      (''th'', ''th''), (''s'', ''s''), (''z'', ''z''), (''r'', ''r''), (''w'', ''w''),
      (''y'', ''y''), (''jh'', ''jh''), (''ch'', ''ch''), (''iy'', ''iy''), (''eh'', ''eh''),
      (''ey'', ''ey''), (''ae'', ''ae''), (''aw'', ''aw''), (''ay'', ''ay''), (''oy'', ''oy''),
      (''ow'', ''ow''), (''uh'', ''uh''), (''ah'', ''ah''), (''ax'', ''ah''), (''ax-h'', ''ah''),
      (''aa'', ''aa''), (''ao'', ''aa''), (''er'', ''er''), (''axr'', ''er''), (''hh'', ''hh''),
      (''hv'', ''hh''), (''ih'', ''ih''), (''ix'', ''ih''), (''l'', ''l''), (''el'', ''l''),
      (''m'', ''m''), (''em'', ''m''), (''n'', ''n''), (''en'', ''n''), (''nx'', ''n''),
      (''ng'', ''ng''), (''eng'', ''ng''), (''sh'', ''sh''), (''zh'', ''sh''), (''uw'', ''uw''),
      (''ux'', ''uw''), (''pcl'', ''sil''), (''bcl'', ''sil''), (''tcl'', ''sil''),
      (''dcl'', ''sil''), (''kcl'', ''sil''), (''gcl'', ''sil''), (''h#'', ''sil''),
      (''pau'', ''sil''), (''epi'', ''sil'')]"

section \<open>Balanced dataset builder: \<^verbatim>\<open>data_loader\<close> and \<^verbatim>\<open>balance_classes\<close>\<close>

text \<open>
  The inner loop of \<^verbatim>\<open>data_loader\<close> over one \<^verbatim>\<open>hidden_state_list\<close>. A hidden state
  is \<open>Some v\<close> for a tensor \<open>v\<close>, as \<^verbatim>\<open>extract_hidden_states\<close> appends them
  (\<^verbatim>\<open>frame.cpu()\<close>), for which \<^verbatim>\<open>i != None\<close> is the bool True, or \<open>None\<close> for Python's
  \<^verbatim>\<open>None\<close>; \<^verbatim>\<open>np.array(i)\<close> keeps the vector. \<^verbatim>\<open>phoneme_mapping[phoneme]\<close> is
  evaluated only when the instance is selected.
\<close>

fun hidden_state_loop ::
  "string \<Rightarrow> string list option \<Rightarrow> 'v option list \<Rightarrow> 'v list \<times> string list
     \<Rightarrow> error + 'v list \<times> string list" where
  "hidden_state_loop phoneme target_phonemes [] (X, y) = Inr (X, y)"
| "hidden_state_loop phoneme target_phonemes (i # rest) (X, y) =
     (if i \<noteq> None \<and> phoneme \<noteq> ''q'' then
        (case target_phonemes of
           None \<Rightarrow>
             (case dict_getitem phoneme_mapping phoneme of
                Inl e \<Rightarrow> Inl e
              | Inr c \<Rightarrow> hidden_state_loop phoneme target_phonemes rest (X @ [the i], y @ [c]))
         | Some targets \<Rightarrow>
             (if phoneme \<in> set targets then
                (case dict_getitem phoneme_mapping phoneme of
                   Inl e \<Rightarrow> Inl e
                 | Inr c \<Rightarrow> hidden_state_loop phoneme target_phonemes rest (X @ [the i], y @ [c]))
              else hidden_state_loop phoneme target_phonemes rest (X, y)))
      else hidden_state_loop phoneme target_phonemes rest (X, y))"

text \<open>The outer loop over \<^verbatim>\<open>hidden_state_dict[layer_idx].items()\<close>.\<close>

fun phoneme_loop ::
  "string list option \<Rightarrow> (string \<times> 'v option list) list \<Rightarrow> 'v list \<times> string list
     \<Rightarrow> error + 'v list \<times> string list" where
  "phoneme_loop target_phonemes [] acc = Inr acc"
| "phoneme_loop target_phonemes ((phoneme, hidden_state_list) # rest) acc =
     (case hidden_state_loop phoneme target_phonemes hidden_state_list acc of
        Inl e \<Rightarrow> Inl e
      | Inr acc' \<Rightarrow> phoneme_loop target_phonemes rest acc')"

definition data_loader ::
  "'v option phoneme_table \<Rightarrow> nat \<Rightarrow> string list option \<Rightarrow> error + 'v list \<times> string list" where
  "data_loader hidden_state_dict layer_idx target_phonemes =
     (case dict_getitem hidden_state_dict layer_idx of
        Inl e \<Rightarrow> Inl e
      | Inr d \<Rightarrow> phoneme_loop target_phonemes d ([], []))"

text \<open>\<^verbatim>\<open>Counter(y_labels)\<close>: the labels in order of first occurrence, with their counts.\<close>

fun counter_add :: "('l \<times> nat) list \<Rightarrow> 'l \<Rightarrow> ('l \<times> nat) list" where
  "counter_add [] y = [(y, 1)]"
| "counter_add ((k, c) # d) y =
     (if k = y then (k, c + 1) # d else (k, c) # counter_add d y)"

definition Counter :: "'l list \<Rightarrow> ('l \<times> nat) list" where
  "Counter y_labels = foldl counter_add [] y_labels"

text \<open>\<^verbatim>\<open>min(values)\<close> raises ValueError on an empty sequence.\<close>

fun py_min :: "nat list \<Rightarrow> error + nat" where
  "py_min [] = Inl ValueError"
| "py_min (v # vs) = Inr (fold min vs v)"

text \<open>
  The inner loop of \<^verbatim>\<open>balance_classes\<close> over \<^verbatim>\<open>zip(X_instances, y_labels)\<close> for one
  label, with its counter \<open>i\<close> and its lists \<open>instances\<close> and \<open>labels\<close>. \<open>Some\<close> is
  the \<^verbatim>\<open>break\<close>, reached when \<open>i\<close> equals \<open>num_instances_per_class\<close>; \<open>None\<close> is the
  loop running out, after which nothing is added for the label.
\<close>

fun class_loop ::
  "nat \<Rightarrow> 'l \<Rightarrow> ('x \<times> 'l) list \<Rightarrow> nat \<Rightarrow> 'x list \<Rightarrow> 'l list \<Rightarrow> ('x list \<times> 'l list) option" where
  "class_loop num_instances_per_class label [] i instances labels = None"
| "class_loop num_instances_per_class label ((x, y) # rest) i instances labels =
     (if y = label then
        (if i = num_instances_per_class then Some (instances @ [x], labels @ [y])
         else class_loop num_instances_per_class label rest (i + 1) (instances @ [x]) (labels @ [y]))
      else class_loop num_instances_per_class label rest i instances labels)"

text \<open>The outer loop over \<^verbatim>\<open>class_distribution.keys()\<close>.\<close>

fun label_loop ::
  "nat \<Rightarrow> 'l list \<Rightarrow> ('x \<times> 'l) list \<Rightarrow> 'x list \<times> 'l list \<Rightarrow> 'x list \<times> 'l list" where
  "label_loop num_instances_per_class [] zipped balanced = balanced"
| "label_loop num_instances_per_class (label # rest) zipped (balanced_data_X, balanced_data_y) =
     (case class_loop num_instances_per_class label zipped 1 [] [] of
        None \<Rightarrow> label_loop num_instances_per_class rest zipped (balanced_data_X, balanced_data_y)
      | Some (instances, labels) \<Rightarrow>
          label_loop num_instances_per_class rest zipped
            (balanced_data_X @ instances, balanced_data_y @ labels))"

definition balance_classes :: "'x list \<Rightarrow> 'l list \<Rightarrow> error + 'x list \<times> 'l list" where
  "balance_classes X_instances y_labels =
     (let class_distribution = Counter y_labels
      in case py_min (map snd class_distribution) of
           Inl e \<Rightarrow> Inl e
         | Inr num_instances_per_class \<Rightarrow>
             Inr (label_loop num_instances_per_class (map fst class_distribution)
                    (zip X_instances y_labels) ([], [])))"

section \<open>Layer-wise probing loop\<close>

text \<open>
  \<^verbatim>\<open>accuracy_score(y_true, y_pred)\<close> of scikit-learn: the fraction of positions at
  which the two label lists agree; lists of different lengths raise ValueError. The
  loop never calls it on empty lists, since \<^verbatim>\<open>balance_classes\<close> raises first.
\<close>

definition accuracy_score :: "'l list \<Rightarrow> 'l list \<Rightarrow> error + rat" where
  "accuracy_score y_true y_pred =
     (if length y_true \<noteq> length y_pred then Inl ValueError
      else Inr (of_nat (length (filter (\<lambda>(a, b). a = b) (zip y_true y_pred)))
                / of_nat (length y_true)))"

text \<open>
  The body of the loop over \<^verbatim>\<open>range(num_layers)\<close>. The notebook leaves the two
  statements that train the probe and that compute \<^verbatim>\<open>test_pred\<close> to the student
  (\<^verbatim>\<open># YOUR CODE HERE\<close>); they are the parameters \<open>fit\<close> and \<open>predict\<close>, which may
  raise. Everything else is the notebook's code, in its order.
\<close>

definition probe_layer ::
  "(nat \<Rightarrow> 'v list \<Rightarrow> string list \<Rightarrow> error + 'm) \<Rightarrow> ('m \<Rightarrow> 'v list \<Rightarrow> error + string list)
     \<Rightarrow> 'v option phoneme_table \<Rightarrow> 'v option phoneme_table \<Rightarrow> string list \<Rightarrow> nat \<Rightarrow> error + rat" where
  "probe_layer fit predict phoneme_states_train phoneme_states_test target_phonemes layer_idx =
     (case data_loader phoneme_states_train layer_idx (Some target_phonemes) of
        Inl e \<Rightarrow> Inl e
      | Inr (train_X, train_y) \<Rightarrow>
     (case balance_classes train_X train_y of
        Inl e \<Rightarrow> Inl e
      | Inr (train_X', train_y') \<Rightarrow>
     (case fit layer_idx train_X' train_y' of
        Inl e \<Rightarrow> Inl e
      | Inr probe \<Rightarrow>
     (case data_loader phoneme_states_test layer_idx (Some target_phonemes) of
        Inl e \<Rightarrow> Inl e
      | Inr (test_X, test_y) \<Rightarrow>
     (case balance_classes test_X test_y of
        Inl e \<Rightarrow> Inl e
      | Inr (test_X', test_y') \<Rightarrow>
     (case predict probe test_X' of
        Inl e \<Rightarrow> Inl e
      | Inr test_pred \<Rightarrow> accuracy_score test_y' test_pred))))))"

text \<open>The loop over the layers, appending each accuracy to \<^verbatim>\<open>accs\<close>.\<close>

fun layers_probe_loop ::
  "(nat \<Rightarrow> 'v list \<Rightarrow> string list \<Rightarrow> error + 'm) \<Rightarrow> ('m \<Rightarrow> 'v list \<Rightarrow> error + string list)
     \<Rightarrow> 'v option phoneme_table \<Rightarrow> 'v option phoneme_table \<Rightarrow> string list \<Rightarrow> nat list
     \<Rightarrow> rat list \<Rightarrow> error + rat list" where
  "layers_probe_loop fit predict tr te target_phonemes [] accs = Inr accs"
| "layers_probe_loop fit predict tr te target_phonemes (layer_idx # rest) accs =
     (case probe_layer fit predict tr te target_phonemes layer_idx of
        Inl e \<Rightarrow> Inl e
      | Inr test_acc \<Rightarrow> layers_probe_loop fit predict tr te target_phonemes rest (accs @ [test_acc]))"

text \<open>The category groups and the loop over them, filling \<^verbatim>\<open>accs_per_category\<close>.\<close>

definition phoneme_dict :: "(string \<times> string list) list" where
  "phoneme_dict =
     [(''stops'', [''p'', ''t'', ''k'', ''b'', ''d'', ''g'']),
      (''fricatives'', [''f'', ''v'', ''th'', ''dh'', ''s'', ''z'', ''sh'']),
      (''nasals'', [''m'', ''n'', ''ng'']),
      (''approximants'', [''l'', ''w'', ''y'', ''hh'']),
      (''vowels'', [''aa'', ''ow'', ''iy'', ''eh'', ''uh''])]"

fun categories_loop ::
  "(nat \<Rightarrow> 'v list \<Rightarrow> string list \<Rightarrow> error + 'm) \<Rightarrow> ('m \<Rightarrow> 'v list \<Rightarrow> error + string list)
     \<Rightarrow> 'v option phoneme_table \<Rightarrow> 'v option phoneme_table \<Rightarrow> nat
     \<Rightarrow> (string \<times> string list) list \<Rightarrow> rat list list \<Rightarrow> error + rat list list" where
  "categories_loop fit predict tr te num_layers [] accs_per_category = Inr accs_per_category"
| "categories_loop fit predict tr te num_layers ((phoneme_category, target_phonemes) # rest)
       accs_per_category =
     (case layers_probe_loop fit predict tr te target_phonemes [0..<num_layers] [] of
        Inl e \<Rightarrow> Inl e
      | Inr accs \<Rightarrow>
          categories_loop fit predict tr te num_layers rest (accs_per_category @ [accs]))"

definition probing ::
  "(nat \<Rightarrow> 'v list \<Rightarrow> string list \<Rightarrow> error + 'm) \<Rightarrow> ('m \<Rightarrow> 'v list \<Rightarrow> error + string list)
     \<Rightarrow> 'v option phoneme_table \<Rightarrow> 'v option phoneme_table \<Rightarrow> nat \<Rightarrow> error + rat list list" where
  "probing fit predict phoneme_states_train phoneme_states_test num_layers =
     categories_loop fit predict phoneme_states_train phoneme_states_test num_layers phoneme_dict []"

section \<open>Notions used in the statements\<close>

text \<open>
  \<open>frame_quotient s\<close> is the float \<^verbatim>\<open>(s / 16000) / 0.020\<close> where it is finite;
  \<open>dd_get d k\<close> reads a \<^verbatim>\<open>defaultdict(list)\<close> without inserting.
\<close>

definition frame_quotient :: "int \<Rightarrow> rat" where
  "frame_quotient s = (case frame_position s of Inr (Some q) \<Rightarrow> q | _ \<Rightarrow> 0)"

definition dd_get :: "('k \<times> 'a list) list \<Rightarrow> 'k \<Rightarrow> 'a list" where
  "dd_get d k = (case map_of d k of None \<Rightarrow> [] | Some v \<Rightarrow> v)"

text \<open>
  The frame indices of one segment, the segments carrying one label, and the vectors
  of a waveform at the indices below its length.
\<close>

definition segment_range :: "int \<times> int \<times> string \<Rightarrow> int list" where
  "segment_range seg = (case seg of (s, t, p) \<Rightarrow> py_range \<lfloor>frame_quotient s\<rfloor> \<lceil>frame_quotient t\<rceil>)"

definition labelled :: "string \<Rightarrow> (int \<times> int \<times> string) list \<Rightarrow> (int \<times> int \<times> string) list" where
  "labelled p segs = filter (\<lambda>seg. snd (snd seg) = p) segs"

definition kept_states :: "'v list \<Rightarrow> int list \<Rightarrow> 'v list" where
  "kept_states waveform indeces =
     map (\<lambda>idx. waveform ! nat idx) (filter (\<lambda>idx. idx < int (length waveform)) indeces)"

text \<open>
  The frame indices the notebook computes for a label of an utterance (the entry of
  \<^verbatim>\<open>phoneme_indeces\<close>), and the vectors it finds for one segment: its two index
  computations, the range between them and the lookup in the frame list.
\<close>

definition computed_indeces :: "phonetic_detail \<Rightarrow> string \<Rightarrow> int list" where
  "computed_indeces phonemes p =
     (case phoneme_indeces phonemes of Inl e \<Rightarrow> [] | Inr pidx \<Rightarrow> dd_get pidx p)"


text \<open>\<^verbatim>\<open>frame_states_per_phoneme[layer_idx][p]\<close>, read without inserting.\<close>

definition states_at :: "'v phoneme_table \<Rightarrow> nat \<Rightarrow> string \<Rightarrow> 'v list" where
  "states_at fspp layer_idx p = (case map_of fspp layer_idx of None \<Rightarrow> [] | Some d \<Rightarrow> dd_get d p)"

text \<open>
  Sample offsets as the corpus delivers them: non-negative 64-bit integers. The
  frame and layer tables are well formed when every layer index is below
  \<^verbatim>\<open>num_layers\<close> and every waveform index addresses an instance of \<^verbatim>\<open>data\<close>.
\<close>

definition offsets_ok :: "phonetic_detail \<Rightarrow> bool" where
  "offsets_ok phonemes =
     (\<forall>(s, t, p) \<in> set (segments phonemes). 0 \<le> s \<and> s < 2 ^ 63 \<and> 0 \<le> t \<and> t < 2 ^ 63)"

definition well_formed ::
  "phonetic_detail list \<Rightarrow> (nat \<times> (nat \<times> 'v list) list) list \<Rightarrow> nat \<Rightarrow> bool" where
  "well_formed data frame_states num_layers =
     (\<forall>(layer_idx, layer) \<in> set frame_states.
        layer_idx < num_layers \<and>
        (\<forall>(waveform_idx, waveform) \<in> set layer.
           waveform_idx < length data \<and> offsets_ok (data ! waveform_idx)))"

text \<open>
  What one utterance, one layer and the whole frame table contribute to a label:
  the kept vectors of every segment carrying the label, in order, with repetitions.
\<close>

definition utterance_states :: "'v list \<Rightarrow> phonetic_detail \<Rightarrow> string \<Rightarrow> 'v list" where
  "utterance_states waveform phonemes p =
     concat (map (\<lambda>seg. kept_states waveform (segment_range seg)) (labelled p (segments phonemes)))"

definition layer_states :: "phonetic_detail list \<Rightarrow> (nat \<times> 'v list) list \<Rightarrow> string \<Rightarrow> 'v list" where
  "layer_states data layer p =
     concat (map (\<lambda>(waveform_idx, waveform). utterance_states waveform (data ! waveform_idx) p) layer)"

definition table_states ::
  "phonetic_detail list \<Rightarrow> (nat \<times> (nat \<times> 'v list) list) list \<Rightarrow> nat \<Rightarrow> string \<Rightarrow> 'v list" where
  "table_states data frame_states layer_idx p =
     concat (map (\<lambda>(l, layer). layer_states data layer p)
                 (filter (\<lambda>(l, layer). l = layer_idx) frame_states))"

text \<open>
  For the balancing: the distinct labels in order of first occurrence, the pairs of
  one class in input order, the smallest class count, and the first \<open>m\<close> pairs of each
  class.
\<close>

definition first_order :: "'a list \<Rightarrow> 'a list" where
  "first_order ys = rev (remdups (rev ys))"

definition class_instances :: "'l \<Rightarrow> ('x \<times> 'l) list \<Rightarrow> ('x \<times> 'l) list" where
  "class_instances label ps = filter (\<lambda>p. snd p = label) ps"

definition min_count :: "'l list \<Rightarrow> nat" where
  "min_count ys = Min (count_list ys ` set ys)"

definition balanced :: "nat \<Rightarrow> ('x \<times> 'l) list \<Rightarrow> 'l list \<Rightarrow> ('x \<times> 'l) list" where
  "balanced m ps labels = concat (map (\<lambda>l. take m (class_instances l ps)) labels)"

section \<open>Binary64 rounding\<close>

lemma pow2_powi: "pow2 e = 2 powi e"
  by (simp add: pow2_def power_int_def inverse_eq_divide power_one_over)

lemma pow2_pos: "0 < pow2 e"
  by (simp add: pow2_powi)

lemma pow2_mono: "e \<le> e' \<Longrightarrow> pow2 e \<le> pow2 e'"
  by (simp add: pow2_powi power_int_increasing)

lemma round_half_even_upper: "of_int (round_half_even y) \<le> y + 1 / 2"
  unfolding round_half_even_def Let_def
  by (auto simp: not_less) linarith+

lemma round_half_even_nonneg: "0 \<le> y \<Longrightarrow> 0 \<le> round_half_even y"
  unfolding round_half_even_def Let_def by auto

lemma binade_le:
  assumes "0 < a"
  shows "pow2 (binade a) \<le> a"
proof -
  obtain p q where pq: "quotient_of a = (p, q)" by (cases "quotient_of a")
  have q: "0 < q" using pq by (rule quotient_of_denom_pos)
  have a: "a = of_int p / of_int q" using pq by (rule quotient_of_div)
  have p: "0 < p" using assms q unfolding a by (simp add: zero_less_divide_iff)
  let ?d = "bitlen p - bitlen q"
  show ?thesis
  proof (cases "pow2 ?d \<le> a")
    case True
    then show ?thesis by (simp add: binade_def pq)
  next
    case False
    have bp: "2 ^ nat (bitlen p - 1) \<le> p" using bitlen_bounds[OF p] by simp
    have bq: "q < 2 ^ nat (bitlen q)" using bitlen_bounds[OF q] by simp
    have bp1: "1 \<le> bitlen p" using p by (auto simp: bitlen_alt_def)
    have bq0: "0 \<le> bitlen q" by (rule bitlen_nonneg)
    have "pow2 (?d - 1) = 2 powi (bitlen p - 1) / 2 powi bitlen q"
      by (simp add: pow2_powi power_int_diff)
    also have "\<dots> = 2 ^ nat (bitlen p - 1) / 2 ^ nat (bitlen q)"
      using bp1 bq0 by (simp add: power_int_def)
    also have "\<dots> \<le> of_int p / of_int q"
    proof (rule frac_le)
      show "(0::rat) \<le> of_int p" using p by simp
      have "(of_int (2 ^ nat (bitlen p - 1)) :: rat) \<le> of_int p" using bp by (simp only: of_int_le_iff)
      then show "(2::rat) ^ nat (bitlen p - 1) \<le> of_int p" by simp
      show "(0::rat) < of_int q" using q by simp
      have "(of_int q :: rat) \<le> of_int (2 ^ nat (bitlen q))" using bq by (simp only: of_int_le_iff)
      then show "(of_int q :: rat) \<le> 2 ^ nat (bitlen q)" by simp
    qed
    finally have "pow2 (?d - 1) \<le> a" unfolding a .
    moreover have "binade a = ?d - 1" using False by (simp add: binade_def pq)
    ultimately show ?thesis by simp
  qed
qed

lemma fl_round_bounded:
  assumes "\<bar>x\<bar> \<le> pow2 1000"
  shows "\<exists>r. fl_round x = Some r \<and> \<bar>r\<bar> \<le> 2 * \<bar>x\<bar> + 1 \<and> (0 \<le> x \<longrightarrow> 0 \<le> r)"
proof (cases "x = 0")
  case True
  then show ?thesis by (simp add: fl_round_def)
next
  case False
  define a where "a = \<bar>x\<bar>"
  define e where "e = max (binade a - 52) (- 1074)"
  define r where "r = of_int (round_half_even (a / pow2 e)) * pow2 e"
  have a_pos: "0 < a" using False by (simp add: a_def)
  have e_pos: "0 < pow2 e" by (rule pow2_pos)
  have "pow2 (binade a - 52) \<le> pow2 (binade a)" by (rule pow2_mono) simp
  then have "pow2 (binade a - 52) \<le> a" using binade_le[OF a_pos] by simp
  moreover have "pow2 (- 1074) \<le> 1" by (simp add: pow2_def)
  ultimately have e_le: "pow2 e \<le> a + 1"
    using a_pos by (auto simp: e_def max_def)
  have "r \<le> (a / pow2 e + 1 / 2) * pow2 e"
    unfolding r_def using round_half_even_upper[of "a / pow2 e"] e_pos
    by (simp add: mult_right_mono)
  also have "\<dots> = a + pow2 e / 2" using e_pos by (simp add: field_simps)
  finally have r_le: "r \<le> 2 * a + 1" using e_le a_pos by linarith
  have r_nonneg: "0 \<le> r"
    unfolding r_def using round_half_even_nonneg[of "a / pow2 e"] a_pos e_pos by simp
  have "2 * a + 1 < pow2 1024"
  proof -
    have "2 * a + 1 \<le> 2 * pow2 1000 + 1" using assms by (simp add: a_def)
    also have "\<dots> < pow2 1024" by (simp add: pow2_def)
    finally show ?thesis .
  qed
  then have no_ovf: "\<not> pow2 1024 \<le> r" using r_le by simp
  have "fl_round x = Some (sgn x * r)"
    using False no_ovf by (simp add: fl_round_def Let_def a_def e_def r_def)
  moreover have "\<bar>sgn x * r\<bar> \<le> 2 * \<bar>x\<bar> + 1"
    using r_le r_nonneg False by (simp add: abs_mult a_def)
  moreover have "0 \<le> x \<longrightarrow> 0 \<le> sgn x * r" using r_nonneg by (simp add: sgn_if)
  ultimately show ?thesis by blast
qed

lemma frame_length_pos: "0 < frame_length"
  by (simp add: frame_length_def)

lemma frame_position_total:
  assumes "\<bar>s\<bar> \<le> 2 ^ 63"
  shows "\<exists>q. frame_position s = Inr (Some q) \<and> (0 \<le> s \<longrightarrow> 0 \<le> q)"
proof -
  have s_rat: "\<bar>(of_int s :: rat)\<bar> \<le> 2 ^ 63"
  proof -
    have "(of_int \<bar>s\<bar> :: rat) \<le> of_int (2 ^ 63)" using assms by (simp only: of_int_le_iff)
    then show ?thesis by simp
  qed
  have "\<bar>(of_int s :: rat) / of_int 16000\<bar> \<le> 2 ^ 63" using s_rat by simp
  also have "\<dots> \<le> pow2 1000" by (simp add: pow2_def)
  finally obtain t where t: "fl_round (of_int s / of_int 16000) = Some t"
    and t_abs: "\<bar>t\<bar> \<le> 2 * \<bar>(of_int s :: rat) / of_int 16000\<bar> + 1"
    and t_sgn: "0 \<le> (of_int s :: rat) / of_int 16000 \<longrightarrow> 0 \<le> t"
    using fl_round_bounded by blast
  have t_le: "\<bar>t\<bar> \<le> 2 ^ 64" using t_abs s_rat by simp
  have "\<bar>t / frame_length\<bar> = \<bar>t\<bar> * (288230376151711744 / 5764607523034235)"
    by (simp add: frame_length_def)
  also have "\<dots> \<le> 2 ^ 64 * 64" using t_le by (simp add: mult_mono)
  also have "\<dots> \<le> pow2 1000" by (simp add: pow2_def)
  finally obtain q where q: "fl_round (t / frame_length) = Some q"
    and q_sgn: "0 \<le> t / frame_length \<longrightarrow> 0 \<le> q"
    using fl_round_bounded by blast
  have "frame_position s = Inr (Some q)"
    using t q frame_length_pos by (simp add: frame_position_def int_truediv_def float_truediv_def)
  moreover have "0 \<le> s \<longrightarrow> 0 \<le> q"
    using t_sgn q_sgn frame_length_pos by (simp add: zero_le_divide_iff)
  ultimately show ?thesis by blast
qed

lemma binade_less:
  assumes "0 < a"
  shows "a < pow2 (binade a + 1)"
proof -
  obtain p q where pq: "quotient_of a = (p, q)" by (cases "quotient_of a")
  have q: "0 < q" using pq by (rule quotient_of_denom_pos)
  have a: "a = of_int p / of_int q" using pq by (rule quotient_of_div)
  have p: "0 < p" using assms q unfolding a by (simp add: zero_less_divide_iff)
  let ?d = "bitlen p - bitlen q"
  show ?thesis
  proof (cases "pow2 ?d \<le> a")
    case False
    then show ?thesis by (simp add: binade_def pq)
  next
    case True
    have bp: "p < 2 ^ nat (bitlen p)" using bitlen_bounds[OF p] by simp
    have bq: "2 ^ nat (bitlen q - 1) \<le> q" using bitlen_bounds[OF q] by simp
    have bq1: "1 \<le> bitlen q" using q by (auto simp: bitlen_alt_def)
    have bp0: "0 \<le> bitlen p" by (rule bitlen_nonneg)
    have "of_int p / of_int q < (2::rat) ^ nat (bitlen p) / 2 ^ nat (bitlen q - 1)"
    proof (rule frac_less)
      show "(0::rat) \<le> of_int p" using p by simp
      have "(of_int p :: rat) < of_int (2 ^ nat (bitlen p))" using bp by (simp only: of_int_less_iff)
      then show "(of_int p :: rat) < 2 ^ nat (bitlen p)" by simp
      show "(0::rat) < 2 ^ nat (bitlen q - 1)" by simp
      have "(of_int (2 ^ nat (bitlen q - 1)) :: rat) \<le> of_int q" using bq by (simp only: of_int_le_iff)
      then show "(2::rat) ^ nat (bitlen q - 1) \<le> of_int q" by simp
    qed
    also have "(2::rat) ^ nat (bitlen p) / 2 ^ nat (bitlen q - 1) = 2 powi bitlen p / 2 powi (bitlen q - 1)"
      using bq1 bp0 by (simp add: power_int_def)
    also have "\<dots> = 2 powi (bitlen p - (bitlen q - 1))"
      by (rule power_int_diff[symmetric]) simp
    also have "bitlen p - (bitlen q - 1) = ?d + 1" by simp
    also have "2 powi (?d + 1) = pow2 (?d + 1)" by (simp only: pow2_powi)
    finally have "a < pow2 (?d + 1)" unfolding a .
    moreover have "binade a = ?d" using True by (simp add: binade_def pq)
    ultimately show ?thesis by simp
  qed
qed

lemma pow2_less_mono: "e < e' \<Longrightarrow> pow2 e < pow2 e'"
  by (simp add: pow2_powi power_int_strict_increasing)

lemma binade_unique:
  assumes "pow2 k \<le> a" "a < pow2 (k + 1)"
  shows "binade a = k"
proof -
  have pos: "0 < a" using pow2_pos[of k] assms(1) by simp
  have "\<not> binade a < k"
  proof
    assume "binade a < k"
    then have "pow2 (binade a + 1) \<le> pow2 k" by (intro pow2_mono) simp
    with binade_less[OF pos] assms(1) show False by simp
  qed
  moreover have "\<not> k < binade a"
  proof
    assume "k < binade a"
    then have "pow2 (k + 1) \<le> pow2 (binade a)" by (intro pow2_mono) simp
    with binade_le[OF pos] assms(2) show False by simp
  qed
  ultimately show ?thesis by simp
qed

lemma pow2_add: "pow2 (a + b) = pow2 a * pow2 b"
  by (simp add: pow2_powi power_int_add)

lemma round_half_even_nearest:
  assumes "\<bar>y - of_int m\<bar> < 1 / 2"
  shows "round_half_even y = m"
proof -
  define f where "f = \<lfloor>y\<rfloor>"
  have lo: "of_int f \<le> y" and hi: "y < of_int f + 1" unfolding f_def by linarith+
  have m_lo: "y - 1 / 2 < of_int m" and m_hi: "of_int m < y + 1 / 2" using assms by linarith+
  consider "y - of_int f < 1 / 2" | "1 / 2 < y - of_int f" | "y - of_int f = 1 / 2" by linarith
  then show ?thesis
  proof cases
    case 1
    have "(of_int m :: rat) < of_int (f + 1)" using m_hi 1 by simp
    then have "m < f + 1" by (simp only: of_int_less_iff)
    moreover have "(of_int (f - 1) :: rat) < of_int m" using m_lo lo by simp
    then have "f - 1 < m" by (simp only: of_int_less_iff)
    ultimately have "m = f" by simp
    then show ?thesis using 1 by (simp add: round_half_even_def Let_def f_def)
  next
    case 2
    have "(of_int f :: rat) < of_int m" using m_lo 2 by simp
    then have "f < m" by (simp only: of_int_less_iff)
    moreover have "(of_int m :: rat) < of_int (f + 2)" using m_hi hi by simp
    then have "m < f + 2" by (simp only: of_int_less_iff)
    ultimately have "m = f + 1" by simp
    then show ?thesis using 2 by (simp add: round_half_even_def Let_def f_def)
  next
    case 3
    have "(of_int f :: rat) < of_int m" using m_lo 3 by simp
    then have "f < m" by (simp only: of_int_less_iff)
    moreover have "(of_int m :: rat) < of_int (f + 1)" using m_hi 3 by simp
    then have "m < f + 1" by (simp only: of_int_less_iff)
    ultimately show ?thesis by simp
  qed
qed

lemma fl_round_eval:
  assumes "pow2 k \<le> x" "x < pow2 (k + 1)" "- 1022 \<le> k" "k \<le> 1022"
    and "round_half_even (x / pow2 (k - 52)) = m"
  shows "fl_round x = Some (of_int m * pow2 (k - 52))"
proof -
  have pos: "0 < x" using pow2_pos[of k] assms(1) by simp
  have b: "binade x = k" using binade_unique[OF assms(1,2)] .
  have ax: "\<bar>x\<bar> = x" using pos by simp
  have e: "max (k - 52) (- 1074) = k - 52" using assms(3) by simp
  have e_pos: "0 < pow2 (k - 52)" by (rule pow2_pos)
  have split: "pow2 (k + 1) = pow2 53 * pow2 (k - 52)"
  proof -
    have "k + 1 = 53 + (k - 52)" by simp
    then show ?thesis by (simp only: pow2_add)
  qed
  then have "x / pow2 (k - 52) < pow2 53"
    using assms(2) e_pos by (simp add: pos_divide_less_eq)
  then have "of_int m < pow2 53 + 1 / 2"
    using round_half_even_upper[of "x / pow2 (k - 52)"] assms(5) by simp
  then have "(of_int m :: rat) < of_int (2 ^ 53 + 1)" by (simp add: pow2_def)
  then have "m < 2 ^ 53 + 1" by (simp only: of_int_less_iff)
  then have "m \<le> 2 ^ 53" by simp
  then have "(of_int m :: rat) \<le> of_int (2 ^ 53)" by (simp only: of_int_le_iff)
  then have "(of_int m :: rat) \<le> pow2 53" by (simp add: pow2_def)
  then have "of_int m * pow2 (k - 52) \<le> pow2 53 * pow2 (k - 52)"
    using e_pos by (simp add: mult_right_mono)
  also have "\<dots> = pow2 (k + 1)" using split by simp
  also have "\<dots> < pow2 1024" using assms(4) by (intro pow2_less_mono) simp
  finally have no: "\<not> pow2 1024 \<le> of_int m * pow2 (k - 52)" by simp
  show ?thesis
    using pos no assms(5) by (simp add: fl_round_def ax b e Let_def)
qed

subsection \<open>The frame position of some sample offsets\<close>

lemma frame_position_eval:
  assumes "fl_round (of_int s / 16000) = Some t" "fl_round (t / frame_length) = Some q"
  shows "frame_position s = Inr (Some q)"
  using assms by (simp add: frame_position_def int_truediv_def float_truediv_def frame_length_def)

lemma frame_quotient_eval:
  assumes "fl_round (of_int s / 16000) = Some t" "fl_round (t / frame_length) = Some q"
  shows "frame_quotient s = q" "start_index s = Inr \<lfloor>q\<rfloor>" "stop_index s = Inr \<lceil>q\<rceil>"
  using frame_position_eval[OF assms]
  by (simp_all add: frame_quotient_def start_index_def stop_index_def math_floor_def math_ceil_def)

lemma fl_round_one: "fl_round 1 = Some 1"
proof -
  have "fl_round 1 = Some (of_int 4503599627370496 * pow2 (0 - 52))"
    by (rule fl_round_eval) (simp_all add: pow2_def round_half_even_nearest)
  then show ?thesis by (simp add: pow2_def)
qed

lemma fl_round_second: "fl_round (1 / frame_length) = Some 50"
proof -
  have "fl_round (1 / frame_length) = Some (of_int 7036874417766400 * pow2 (5 - 52))"
    by (rule fl_round_eval) (simp_all add: pow2_def frame_length_def round_half_even_nearest)
  then show ?thesis by (simp add: pow2_def)
qed

lemma fl_round_100: "fl_round (100 / 16000) = Some (3602879701896397 / 576460752303423488)"
proof -
  have "fl_round (100 / 16000) = Some (of_int 7205759403792794 * pow2 (- 8 - 52))"
    by (rule fl_round_eval) (simp_all add: pow2_def round_half_even_nearest)
  then show ?thesis by (simp add: pow2_def)
qed

lemma fl_round_100_frames:
  "fl_round (3602879701896397 / 576460752303423488 / frame_length) = Some (5 / 16)"
proof -
  have "fl_round (3602879701896397 / 576460752303423488 / frame_length)
          = Some (of_int 5629499534213120 * pow2 (- 2 - 52))"
    by (rule fl_round_eval) (simp_all add: pow2_def frame_length_def round_half_even_nearest)
  then show ?thesis by (simp add: pow2_def)
qed

lemma fl_round_2240: "fl_round (2240 / 16000) = Some (1261007895663739 / 9007199254740992)"
proof -
  have "fl_round (2240 / 16000) = Some (of_int 5044031582654956 * pow2 (- 3 - 52))"
    by (rule fl_round_eval) (simp_all add: pow2_def round_half_even_nearest)
  then show ?thesis by (simp add: pow2_def)
qed

lemma fl_round_2240_frames:
  "fl_round (1261007895663739 / 9007199254740992 / frame_length)
     = Some (7881299347898369 / 1125899906842624)"
proof -
  have "fl_round (1261007895663739 / 9007199254740992 / frame_length)
          = Some (of_int 7881299347898369 * pow2 (2 - 52))"
    by (rule fl_round_eval) (simp_all add: pow2_def frame_length_def round_half_even_nearest)
  then show ?thesis by (simp add: pow2_def)
qed

lemma frame_quotient_0: "frame_quotient 0 = 0"
  by (simp add: frame_quotient_def frame_position_def int_truediv_def float_truediv_def
      fl_round_def frame_length_def)

lemma frame_quotient_16000: "frame_quotient 16000 = 50"
  by (rule frame_quotient_eval(1)[where t = 1]) (simp_all add: fl_round_one fl_round_second)

lemma frame_quotient_100: "frame_quotient 100 = 5 / 16"
  by (rule frame_quotient_eval(1)[where t = "3602879701896397 / 576460752303423488"])
     (simp_all only: of_int_numeral fl_round_100 fl_round_100_frames)

lemma frame_quotient_2240: "frame_quotient 2240 = 7881299347898369 / 1125899906842624"
  by (rule frame_quotient_eval(1)[where t = "1261007895663739 / 9007199254740992"])
     (simp_all only: of_int_numeral fl_round_2240 fl_round_2240_frames)

lemma frames_2240: "\<lfloor>frame_quotient 2240\<rfloor> = 7" "\<lceil>frame_quotient 2240\<rceil> = 8"
  by (simp_all add: frame_quotient_2240 floor_eq_iff ceiling_eq_iff)

lemma frames_100: "\<lfloor>frame_quotient 100\<rfloor> = 0" "\<lceil>frame_quotient 100\<rceil> = 1"
  by (simp_all add: frame_quotient_100 floor_eq_iff ceiling_eq_iff)

section \<open>The aligner's loops\<close>

lemma frame_position_quotient:
  assumes "\<bar>s\<bar> \<le> 2 ^ 63"
  shows "frame_position s = Inr (Some (frame_quotient s))"
  using frame_position_total[OF assms] by (auto simp: frame_quotient_def)

lemma frame_quotient_nonneg:
  assumes "0 \<le> s" "s \<le> 2 ^ 63"
  shows "0 \<le> frame_quotient s"
proof -
  have "\<bar>s\<bar> \<le> 2 ^ 63" using assms by simp
  from frame_position_total[OF this] assms(1) show ?thesis
    by (auto simp: frame_quotient_def)
qed

lemma start_index_quotient:
  "\<bar>s\<bar> \<le> 2 ^ 63 \<Longrightarrow> start_index s = Inr \<lfloor>frame_quotient s\<rfloor>"
  by (simp add: start_index_def frame_position_quotient math_floor_def)

lemma stop_index_quotient:
  "\<bar>s\<bar> \<le> 2 ^ 63 \<Longrightarrow> stop_index s = Inr \<lceil>frame_quotient s\<rceil>"
  by (simp add: stop_index_def frame_position_quotient math_ceil_def)

lemma map_of_dd_extend:
  "map_of (dd_extend d k xs) k' = (if k' = k then Some (dd_get d k @ xs) else map_of d k')"
  by (induction d k xs rule: dd_extend.induct) (auto simp: dd_get_def)

lemma dd_get_dd_extend:
  "dd_get (dd_extend d k xs) k' = (if k' = k then dd_get d k @ xs else dd_get d k')"
  by (simp add: dd_get_def map_of_dd_extend)

lemma keys_dd_extend: "fst ` set (dd_extend d k xs) = insert k (fst ` set d)"
  by (induction d k xs rule: dd_extend.induct) auto

lemma map_of_dict_set: "map_of (dict_set d k v) = (map_of d)(k \<mapsto> v)"
  by (induction d k v rule: dict_set.induct) auto

lemma keys_dict_set: "fst ` set (dict_set d k v) = insert k (fst ` set d)"
  by (induction d k v rule: dict_set.induct) auto

lemma distinct_dd_extend:
  "distinct (map fst d) \<Longrightarrow> distinct (map fst (dd_extend d k xs))"
  by (induction d k xs rule: dd_extend.induct) (auto simp: keys_dd_extend)

lemma phoneme_indeces_loop_spec:
  assumes "\<forall>(s, t, p) \<in> set segs. \<bar>s\<bar> \<le> 2 ^ 63 \<and> \<bar>t\<bar> \<le> 2 ^ 63"
  shows "\<exists>pidx. phoneme_indeces_loop segs acc = Inr pidx
           \<and> (\<forall>p. dd_get pidx p = dd_get acc p @ concat (map segment_range (labelled p segs)))
           \<and> fst ` set pidx = fst ` set acc \<union> (snd \<circ> snd) ` set segs
           \<and> (distinct (map fst acc) \<longrightarrow> distinct (map fst pidx))"
  using assms
proof (induction segs arbitrary: acc)
  case Nil
  then show ?case by (simp add: labelled_def)
next
  case (Cons seg segs)
  obtain s t p where seg: "seg = (s, t, p)" by (cases seg)
  have b: "\<bar>s\<bar> \<le> 2 ^ 63" "\<bar>t\<bar> \<le> 2 ^ 63" using Cons.prems seg by auto
  have rest: "\<forall>(s, t, p) \<in> set segs. \<bar>s\<bar> \<le> 2 ^ 63 \<and> \<bar>t\<bar> \<le> 2 ^ 63"
    using Cons.prems by simp
  let ?acc = "dd_extend acc p (segment_range seg)"
  from Cons.IH[OF rest, of ?acc] obtain pidx where
    run: "phoneme_indeces_loop segs ?acc = Inr pidx"
    and get: "\<forall>q. dd_get pidx q = dd_get ?acc q @ concat (map segment_range (labelled q segs))"
    and keys: "fst ` set pidx = fst ` set ?acc \<union> (snd \<circ> snd) ` set segs"
    and dist: "distinct (map fst ?acc) \<longrightarrow> distinct (map fst pidx)"
    by blast
  have "phoneme_indeces_loop (seg # segs) acc = Inr pidx"
    using run b by (simp add: seg start_index_quotient stop_index_quotient segment_range_def)
  moreover have "\<forall>q. dd_get pidx q = dd_get acc q @ concat (map segment_range (labelled q (seg # segs)))"
    using get by (simp add: dd_get_dd_extend labelled_def seg)
  moreover have "fst ` set pidx = fst ` set acc \<union> (snd \<circ> snd) ` set (seg # segs)"
    using keys by (simp add: keys_dd_extend seg)
  moreover have "distinct (map fst acc) \<longrightarrow> distinct (map fst pidx)"
    using dist by (simp add: distinct_dd_extend)
  ultimately show ?case by blast
qed

lemma kept_states_append: "kept_states w (xs @ ys) = kept_states w xs @ kept_states w ys"
  by (simp add: kept_states_def)

lemma kept_states_concat: "kept_states w (concat xss) = concat (map (kept_states w) xss)"
  by (induction xss) (simp_all add: kept_states_append, simp add: kept_states_def)

lemma phoneme_states_nonneg:
  "\<forall>idx \<in> set indeces. 0 \<le> idx \<Longrightarrow> phoneme_states w indeces = Inr (kept_states w indeces)"
  by (induction indeces) (auto simp: kept_states_def list_getitem_def)

lemma map_fst_dict_set:
  "k \<in> fst ` set d \<Longrightarrow> map fst (dict_set d k v) = map fst d"
  by (induction d k v rule: dict_set.induct) auto

lemma dict_getitem_Some:
  "k \<in> fst ` set d \<Longrightarrow> \<exists>v. dict_getitem d k = Inr v \<and> map_of d k = Some v"
  by (cases "map_of d k") (auto simp: dict_getitem_def map_of_eq_None_iff)

lemma states_at_dict_set:
  "states_at (dict_set fspp l d) l' p = (if l' = l then dd_get d p else states_at fspp l' p)"
  by (simp add: states_at_def map_of_dict_set)

lemma dd_get_Cons:
  "dd_get ((k, v) # d) k' = (if k' = k then v else dd_get d k')"
  by (simp add: dd_get_def)

lemma dd_get_absent: "k \<notin> fst ` set d \<Longrightarrow> dd_get d k = []"
  by (simp add: dd_get_def map_of_eq_None_iff[THEN iffD2])

lemma save_states_spec:
  assumes "l \<in> fst ` set fspp" "distinct (map fst pidx)"
    and "\<forall>(p, idxs) \<in> set pidx. \<forall>i \<in> set idxs. 0 \<le> i"
  shows "\<exists>fspp'. save_states l w pidx fspp = Inr fspp'
           \<and> map fst fspp' = map fst fspp
           \<and> (\<forall>l' p. states_at fspp' l' p =
                 (if l' = l then states_at fspp l p @ kept_states w (dd_get pidx p)
                  else states_at fspp l' p))"
  using assms
proof (induction pidx arbitrary: fspp)
  case Nil
  then show ?case by (simp add: dd_get_def kept_states_def)
next
  case (Cons entry pidx)
  obtain p0 idxs0 where entry: "entry = (p0, idxs0)" by (cases entry)
  have nonneg0: "\<forall>i \<in> set idxs0. 0 \<le> i" using Cons.prems(3) entry by auto
  have fresh: "p0 \<notin> fst ` set pidx" using Cons.prems(2) entry by auto
  obtain d where d: "dict_getitem fspp l = Inr d" "map_of fspp l = Some d"
    using dict_getitem_Some[OF Cons.prems(1)] by blast
  let ?fspp = "dict_set fspp l (dd_extend d p0 (kept_states w idxs0))"
  have keys: "map fst ?fspp = map fst fspp" using Cons.prems(1) by (rule map_fst_dict_set)
  have "l \<in> fst ` set ?fspp" using Cons.prems(1) by (simp add: keys_dict_set)
  moreover have "distinct (map fst pidx)" using Cons.prems(2) by simp
  moreover have "\<forall>(p, idxs) \<in> set pidx. \<forall>i \<in> set idxs. 0 \<le> i" using Cons.prems(3) by simp
  ultimately obtain fspp' where
    run: "save_states l w pidx ?fspp = Inr fspp'"
    and keys': "map fst fspp' = map fst ?fspp"
    and at: "\<forall>l' p. states_at fspp' l' p =
                (if l' = l then states_at ?fspp l p @ kept_states w (dd_get pidx p)
                 else states_at ?fspp l' p)"
    using Cons.IH[of ?fspp] by blast
  have "save_states l w (entry # pidx) fspp = Inr fspp'"
    using run d(1) nonneg0 by (simp add: entry phoneme_states_nonneg)
  moreover have "map fst fspp' = map fst fspp" using keys' keys by simp
  moreover have "states_at fspp' l' p =
       (if l' = l then states_at fspp l p @ kept_states w (dd_get (entry # pidx) p)
        else states_at fspp l' p)" for l' p
  proof (cases "l' = l")
    case False
    then show ?thesis using at by (simp add: states_at_dict_set)
  next
    case True
    have here: "states_at fspp l p = dd_get d p" by (simp add: states_at_def d(2))
    show ?thesis
    proof (cases "p = p0")
      case True
      then show ?thesis
        using at \<open>l' = l\<close> fresh here
        by (simp add: states_at_dict_set dd_get_dd_extend entry dd_get_Cons dd_get_absent kept_states_def)
    next
      case False
      then show ?thesis
        using at \<open>l' = l\<close> here
        by (simp add: states_at_dict_set dd_get_dd_extend entry dd_get_Cons)
    qed
  qed
  ultimately show ?case by blast
qed

lemma segment_range_nonneg:
  assumes "0 \<le> s" "s < 2 ^ 63" "i \<in> set (segment_range (s, t, p))"
  shows "0 \<le> i"
proof -
  have "0 \<le> frame_quotient s" using assms(1,2) by (simp add: frame_quotient_nonneg)
  then have "0 \<le> \<lfloor>frame_quotient s\<rfloor>" by simp
  moreover have "\<lfloor>frame_quotient s\<rfloor> \<le> i"
    using assms(3) by (simp add: segment_range_def py_range_def)
  ultimately show ?thesis by linarith
qed

lemma dd_get_entry:
  "distinct (map fst d) \<Longrightarrow> (k, v) \<in> set d \<Longrightarrow> dd_get d k = v"
  by (simp add: dd_get_def)

lemma phoneme_indeces_spec:
  assumes "offsets_ok phonemes"
  shows "\<exists>pidx. phoneme_indeces phonemes = Inr pidx
           \<and> distinct (map fst pidx)
           \<and> (\<forall>p. dd_get pidx p = concat (map segment_range (labelled p (segments phonemes))))
           \<and> fst ` set pidx = set (map (snd \<circ> snd) (segments phonemes))
           \<and> (\<forall>(p, idxs) \<in> set pidx. \<forall>i \<in> set idxs. 0 \<le> i)"
proof -
  let ?segs = "segments phonemes"
  have b: "\<forall>(s, t, p) \<in> set ?segs. \<bar>s\<bar> \<le> 2 ^ 63 \<and> \<bar>t\<bar> \<le> 2 ^ 63"
    using assms by (fastforce simp: offsets_ok_def)
  from phoneme_indeces_loop_spec[OF b, of "[]"] obtain pidx where
    run: "phoneme_indeces_loop ?segs [] = Inr pidx"
    and get': "\<forall>p. dd_get pidx p = concat (map segment_range (labelled p ?segs))"
    and keys: "fst ` set pidx = (snd \<circ> snd) ` set ?segs"
    and d: "distinct (map fst pidx)"
    by (auto simp: dd_get_def)
  have "0 \<le> i" if "(p, idxs) \<in> set pidx" "i \<in> set idxs" for p idxs i
  proof -
    have "idxs = concat (map segment_range (labelled p ?segs))"
      using dd_get_entry[OF d that(1)] get' by simp
    with that(2) obtain seg where seg: "seg \<in> set ?segs" "i \<in> set (segment_range seg)"
      by (auto simp: labelled_def)
    obtain s t q where "seg = (s, t, q)" by (cases seg)
    with seg assms show ?thesis
      using segment_range_nonneg[of s i t q] by (auto simp: offsets_ok_def)
  qed
  then have "\<forall>(p, idxs) \<in> set pidx. \<forall>i \<in> set idxs. 0 \<le> i" by blast
  with run get' keys d show ?thesis by (auto simp: phoneme_indeces_def)
qed

lemma waveforms_loop_spec:
  assumes "l \<in> fst ` set fspp"
    and "\<forall>(widx, w) \<in> set layer. widx < length data \<and> offsets_ok (data ! widx)"
  shows "\<exists>fspp'. waveforms_loop data l layer fspp = Inr fspp'
           \<and> map fst fspp' = map fst fspp
           \<and> (\<forall>l' p. states_at fspp' l' p =
                 (if l' = l
                  then states_at fspp l p @
                       concat (map (\<lambda>(widx, w). utterance_states w (data ! widx) p) layer)
                  else states_at fspp l' p))"
  using assms
proof (induction layer arbitrary: fspp)
  case Nil
  then show ?case by simp
next
  case (Cons entry layer)
  obtain widx w where entry: "entry = (widx, w)" by (cases entry)
  have ok: "widx < length data" "offsets_ok (data ! widx)" using Cons.prems(2) entry by auto
  from phoneme_indeces_spec[OF ok(2)] obtain pidx where
    pidx: "phoneme_indeces (data ! widx) = Inr pidx" "distinct (map fst pidx)"
      "\<forall>p. dd_get pidx p = concat (map segment_range (labelled p (segments (data ! widx))))"
      "\<forall>(p, idxs) \<in> set pidx. \<forall>i \<in> set idxs. 0 \<le> i"
    by blast
  from save_states_spec[OF Cons.prems(1) pidx(2) pidx(4), of w] obtain fspp1 where
    s1: "save_states l w pidx fspp = Inr fspp1" "map fst fspp1 = map fst fspp"
      "\<forall>l' p. states_at fspp1 l' p =
         (if l' = l then states_at fspp l p @ kept_states w (dd_get pidx p)
          else states_at fspp l' p)"
    by blast
  have k1: "l \<in> fst ` set fspp1"
  proof -
    have "fst ` set fspp1 = set (map fst fspp1)" by simp
    also have "\<dots> = fst ` set fspp" unfolding s1(2) by simp
    finally show ?thesis using Cons.prems(1) by simp
  qed
  have rest: "\<forall>(widx, w) \<in> set layer. widx < length data \<and> offsets_ok (data ! widx)"
    using Cons.prems(2) by simp
  from Cons.IH[OF k1 rest] obtain fspp' where
    s2: "waveforms_loop data l layer fspp1 = Inr fspp'" "map fst fspp' = map fst fspp1"
      "\<forall>l' p. states_at fspp' l' p =
         (if l' = l
          then states_at fspp1 l p @
               concat (map (\<lambda>(widx, w). utterance_states w (data ! widx) p) layer)
          else states_at fspp1 l' p)"
    by blast
  have u: "kept_states w (dd_get pidx p) = utterance_states w (data ! widx) p" for p
    by (simp add: pidx(3) kept_states_concat utterance_states_def comp_def)
  have "waveforms_loop data l (entry # layer) fspp = Inr fspp'"
    using ok(1) pidx(1) s1(1) s2(1) by (simp add: entry)
  moreover have "map fst fspp' = map fst fspp" using s1(2) s2(2) by simp
  moreover have "\<forall>l' p. states_at fspp' l' p =
                 (if l' = l
                  then states_at fspp l p @
                       concat (map (\<lambda>(widx, w). utterance_states w (data ! widx) p) (entry # layer))
                  else states_at fspp l' p)"
    using s1(3) s2(3) u by (simp add: entry)
  ultimately show ?case by blast
qed

lemma layers_loop_spec:
  assumes "\<forall>(l, layer) \<in> set frame_states.
             l \<in> fst ` set fspp \<and>
             (\<forall>(widx, w) \<in> set layer. widx < length data \<and> offsets_ok (data ! widx))"
  shows "\<exists>fspp'. layers_loop data frame_states fspp = Inr fspp'
           \<and> map fst fspp' = map fst fspp
           \<and> (\<forall>l p. states_at fspp' l p = states_at fspp l p @ table_states data frame_states l p)"
  using assms
proof (induction frame_states arbitrary: fspp)
  case Nil
  then show ?case by (simp add: table_states_def)
next
  case (Cons entry frame_states)
  obtain l0 layer where entry: "entry = (l0, layer)" by (cases entry)
  have k0: "l0 \<in> fst ` set fspp"
    and ok0: "\<forall>(widx, w) \<in> set layer. widx < length data \<and> offsets_ok (data ! widx)"
    using Cons.prems entry by auto
  from waveforms_loop_spec[OF k0 ok0] obtain fspp1 where
    s1: "waveforms_loop data l0 layer fspp = Inr fspp1" "map fst fspp1 = map fst fspp"
      "\<forall>l' p. states_at fspp1 l' p =
         (if l' = l0
          then states_at fspp l0 p @
               concat (map (\<lambda>(widx, w). utterance_states w (data ! widx) p) layer)
          else states_at fspp l' p)"
    by blast
  have keys1: "fst ` set fspp1 = fst ` set fspp"
  proof -
    have "fst ` set fspp1 = set (map fst fspp1)" by simp
    also have "\<dots> = fst ` set fspp" unfolding s1(2) by simp
    finally show ?thesis .
  qed
  have rest: "\<forall>(l, layer) \<in> set frame_states.
             l \<in> fst ` set fspp1 \<and>
             (\<forall>(widx, w) \<in> set layer. widx < length data \<and> offsets_ok (data ! widx))"
    using Cons.prems unfolding keys1 by simp
  from Cons.IH[OF rest] obtain fspp' where
    s2: "layers_loop data frame_states fspp1 = Inr fspp'" "map fst fspp' = map fst fspp1"
      "\<forall>l p. states_at fspp' l p = states_at fspp1 l p @ table_states data frame_states l p"
    by blast
  have "layers_loop data (entry # frame_states) fspp = Inr fspp'"
    using s1(1) s2(1) by (simp add: entry)
  moreover have "map fst fspp' = map fst fspp" using s1(2) s2(2) by simp
  moreover have "\<forall>l p. states_at fspp' l p =
                   states_at fspp l p @ table_states data (entry # frame_states) l p"
    using s1(3) s2(3) by (simp add: entry table_states_def layer_states_def)
  ultimately show ?case by blast
qed

lemma map_of_initial_table:
  "map_of (map (\<lambda>layer_idx. (layer_idx, [])) [0..<n]) l = (if l < n then Some [] else None)"
  by (induction n) (auto simp: map_add_def split: option.splits)

lemma sort_states_per_phoneme_spec:
  assumes "well_formed data frame_states num_layers"
  shows "\<exists>fspp. sort_states_per_phoneme data frame_states num_layers = Inr fspp
           \<and> map fst fspp = [0..<num_layers]
           \<and> (\<forall>l p. states_at fspp l p = table_states data frame_states l p)"
proof -
  let ?init = "map (\<lambda>layer_idx. (layer_idx, [])) [0..<num_layers] :: 'a phoneme_table"
  have keys: "fst ` set ?init = {0..<num_layers}" by (simp add: image_image)
  have "\<forall>(l, layer) \<in> set frame_states.
             l \<in> fst ` set ?init \<and>
             (\<forall>(widx, w) \<in> set layer. widx < length data \<and> offsets_ok (data ! widx))"
    using assms unfolding keys by (fastforce simp: well_formed_def)
  from layers_loop_spec[OF this] obtain fspp where
    run: "layers_loop data frame_states ?init = Inr fspp" "map fst fspp = map fst ?init"
      "\<forall>l p. states_at fspp l p = states_at ?init l p @ table_states data frame_states l p"
    by blast
  have "states_at ?init l p = []" for l p
    by (simp add: states_at_def map_of_initial_table dd_get_def)
  with run show ?thesis
    by (simp add: sort_states_per_phoneme_def comp_def)
qed

section \<open>Counting and balancing\<close>

lemma first_order_snoc:
  "first_order (ys @ [y]) = (if y \<in> set ys then first_order ys else first_order ys @ [y])"
  by (simp add: first_order_def)

lemma set_first_order: "set (first_order ys) = set ys"
  by (simp add: first_order_def)

lemma distinct_first_order: "distinct (first_order ys)"
  by (simp add: first_order_def)

lemma counter_add_tabulated:
  "distinct K \<Longrightarrow>
   counter_add (map (\<lambda>l. (l, f l)) K) y =
     (if y \<in> set K then map (\<lambda>l. (l, if l = y then f l + 1 else f l)) K
      else map (\<lambda>l. (l, f l)) K @ [(y, 1)])"
  by (induction K) auto

lemma Counter_snoc: "Counter (ys @ [y]) = counter_add (Counter ys) y"
  by (simp add: Counter_def)

lemma Counter_tabulated:
  "Counter ys = map (\<lambda>l. (l, count_list ys l)) (first_order ys)"
proof (induction ys rule: rev_induct)
  case Nil
  then show ?case by (simp add: Counter_def first_order_def)
next
  case (snoc y ys)
  have "Counter (ys @ [y]) = counter_add (map (\<lambda>l. (l, count_list ys l)) (first_order ys)) y"
    by (simp add: Counter_snoc snoc.IH)
  also have "\<dots> = map (\<lambda>l. (l, count_list (ys @ [y]) l)) (first_order (ys @ [y]))"
    by (auto simp: counter_add_tabulated distinct_first_order set_first_order first_order_snoc
        count_list_0_iff)
  finally show ?case .
qed

lemma py_min_Min:
  assumes "vs \<noteq> []"
  shows "py_min vs = Inr (Min (set vs))"
proof (cases vs)
  case Nil
  with assms show ?thesis by simp
next
  case (Cons v vs')
  have "fold min vs' v = Min (set (v # vs'))" by (rule Min.set_eq_fold[symmetric])
  then show ?thesis by (simp add: Cons)
qed

lemma class_loop_spec:
  assumes "i \<le> n"
  shows "class_loop n label ps i instances labels =
           (if n - i < length (class_instances label ps)
            then Some (instances @ map fst (take (Suc (n - i)) (class_instances label ps)),
                       labels @ map snd (take (Suc (n - i)) (class_instances label ps)))
            else None)"
  using assms
proof (induction ps arbitrary: i instances labels)
  case Nil
  then show ?case by (simp add: class_instances_def)
next
  case (Cons p ps)
  obtain x y where p: "p = (x, y)" by (cases p)
  show ?case
  proof (cases "y = label")
    case False
    then show ?thesis using Cons by (simp add: p class_instances_def)
  next
    case True
    show ?thesis
    proof (cases "i = n")
      case True
      then show ?thesis using \<open>y = label\<close> by (simp add: p class_instances_def)
    next
      case False
      then have lt: "i < n" using Cons.prems by simp
      define k where "k = n - (i + 1)"
      have k: "n - i = Suc k" using lt by (simp add: k_def)
      have ci: "class_instances label (p # ps) = p # class_instances label ps"
        using \<open>y = label\<close> by (simp add: p class_instances_def)
      have "i + 1 \<le> n" using lt by simp
      from Cons.IH[OF this, of "instances @ [x]" "labels @ [y]"]
      have ih: "class_loop n label ps (i + 1) (instances @ [x]) (labels @ [y]) =
           (if k < length (class_instances label ps)
            then Some ((instances @ [x]) @ map fst (take (Suc k) (class_instances label ps)),
                       (labels @ [y]) @ map snd (take (Suc k) (class_instances label ps)))
            else None)"
        by (simp only: k_def)
      have "class_loop n label (p # ps) i instances labels =
              class_loop n label ps (i + 1) (instances @ [x]) (labels @ [y])"
        using False \<open>y = label\<close> by (simp add: p)
      then show ?thesis
        unfolding ih k ci by (simp add: p)
    qed
  qed
qed

lemma length_class_instances: "length (class_instances l ps) = count_list (map snd ps) l"
  by (induction ps) (auto simp: class_instances_def)

lemma label_loop_spec:
  assumes "1 \<le> n" "\<forall>l \<in> set labels. n \<le> length (class_instances l ps)"
  shows "label_loop n labels ps (bX, bY) =
           (bX @ map fst (balanced n ps labels), bY @ map snd (balanced n ps labels))"
  using assms(2)
proof (induction labels arbitrary: bX bY)
  case Nil
  then show ?case by (simp add: balanced_def)
next
  case (Cons l labels)
  have "n \<le> length (class_instances l ps)" using Cons.prems by simp
  then have enough: "n - 1 < length (class_instances l ps)" using assms(1) by linarith
  have n: "Suc (n - Suc 0) = n" using assms(1) by simp
  have "class_loop n l ps 1 [] [] =
          Some (map fst (take n (class_instances l ps)), map snd (take n (class_instances l ps)))"
    using class_loop_spec[OF assms(1), of l ps "[]" "[]"] enough by (simp add: n)
  moreover have "\<forall>l \<in> set labels. n \<le> length (class_instances l ps)" using Cons.prems by simp
  ultimately show ?case using Cons.IH by (simp add: balanced_def)
qed

lemma min_count_bounds:
  assumes "l \<in> set ys"
  shows "1 \<le> min_count ys" and "min_count ys \<le> count_list ys l"
proof -
  have fin: "finite (count_list ys ` set ys)" by simp
  have ne: "count_list ys ` set ys \<noteq> {}" using assms by auto
  have "min_count ys \<in> count_list ys ` set ys"
    unfolding min_count_def using fin ne by (rule Min_in)
  then obtain k where "k \<in> set ys" "min_count ys = count_list ys k" by auto
  then show "1 \<le> min_count ys"
    using count_list_0_iff[of ys k] by (cases "count_list ys k") auto
  show "min_count ys \<le> count_list ys l"
    unfolding min_count_def using fin assms by simp
qed

lemma balance_classes_spec:
  assumes "ps \<noteq> []"
  shows "balance_classes (map fst ps) (map snd ps) =
           Inr (map fst (balanced (min_count (map snd ps)) ps (first_order (map snd ps))),
                map snd (balanced (min_count (map snd ps)) ps (first_order (map snd ps))))"
proof -
  let ?ys = "map snd ps"
  let ?K = "first_order ?ys"
  have ys: "?ys \<noteq> []" using assms by simp
  then have K: "?K \<noteq> []" using set_first_order[of ?ys] by (metis set_empty)
  have vals: "map snd (Counter ?ys) = map (count_list ?ys) ?K"
    by (simp add: Counter_tabulated comp_def)
  have keys: "map fst (Counter ?ys) = ?K"
    by (simp add: Counter_tabulated comp_def)
  have "py_min (map snd (Counter ?ys)) = Inr (Min (set (map (count_list ?ys) ?K)))"
    unfolding vals using K by (intro py_min_Min) simp
  also have "set (map (count_list ?ys) ?K) = count_list ?ys ` set ?ys"
    by (simp add: set_first_order)
  finally have m: "py_min (map snd (Counter ?ys)) = Inr (min_count ?ys)"
    by (simp add: min_count_def)
  obtain l0 where l0: "l0 \<in> set ?ys" using ys by (cases ?ys) auto
  have one: "1 \<le> min_count ?ys" using min_count_bounds(1)[OF l0] .
  have enough: "\<forall>l \<in> set ?K. min_count ?ys \<le> length (class_instances l ps)"
    unfolding set_first_order length_class_instances
  proof
    fix l assume "l \<in> set ?ys"
    then show "min_count ?ys \<le> count_list ?ys l" by (rule min_count_bounds(2))
  qed
  have "label_loop (min_count ?ys) ?K ps ([], []) =
          (map fst (balanced (min_count ?ys) ps ?K), map snd (balanced (min_count ?ys) ps ?K))"
    using label_loop_spec[OF one enough, of "[]" "[]"] by simp
  then show ?thesis
    unfolding balance_classes_def Let_def m keys zip_map_fst_snd by simp
qed

section \<open>Claims about the phoneme aligner\<close>


lemma start_index_zero: "start_index 0 = Inr 0"
  by (simp add: start_index_def frame_position_def int_truediv_def float_truediv_def
      fl_round_def frame_length_def math_floor_def)

lemma stop_index_second: "stop_index 16000 = Inr 50"
proof -
  have "stop_index 16000 = Inr \<lceil>50 :: rat\<rceil>"
    by (rule frame_quotient_eval(3)[where t = 1]) (simp_all add: fl_round_one fl_round_second)
  then show ?thesis by simp
qed

lemma kept_states_member:
  assumes "i \<in> set indeces" "i < int (length w)"
  shows "w ! nat i \<in> set (kept_states w indeces)"
  using assms by (auto simp: kept_states_def)

lemma table_states_member:
  assumes "(l, layer) \<in> set frame_states" "(widx, w) \<in> set layer"
    and "(s, t, p) \<in> set (segments (data ! widx))"
    and "\<lfloor>frame_quotient s\<rfloor> \<le> i" "i < \<lceil>frame_quotient t\<rceil>" "i < int (length w)"
  shows "w ! nat i \<in> set (table_states data frame_states l p)"
proof -
  have "i \<in> set (segment_range (s, t, p))"
    using assms(4,5) by (simp add: segment_range_def py_range_def)
  then have "w ! nat i \<in> set (kept_states w (segment_range (s, t, p)))"
    using assms(6) by (rule kept_states_member)
  moreover have "(s, t, p) \<in> set (labelled p (segments (data ! widx)))"
    using assms(3) by (simp add: labelled_def)
  ultimately have "w ! nat i \<in> set (utterance_states w (data ! widx) p)"
    unfolding utterance_states_def by auto
  then have "w ! nat i \<in> set (layer_states data layer p)"
    using assms(2) unfolding layer_states_def by auto
  then show ?thesis
    using assms(1) unfolding table_states_def by auto
qed

lemma phoneme_indeces_second:
  "phoneme_indeces \<lparr>start = [0], stop = [16000], utterance = [''sh'']\<rparr> = Inr [(''sh'', [0..49])]"
  by (simp add: phoneme_indeces_def segments_def start_index_zero stop_index_second py_range_def)

lemma fl_round_9280: "fl_round (9280 / 16000) = Some (5224175567749775 / 9007199254740992)"
proof -
  have "fl_round (9280 / 16000) = Some (of_int 5224175567749775 * pow2 (- 1 - 52))"
    by (rule fl_round_eval) (simp_all add: pow2_def round_half_even_nearest)
  then show ?thesis by (simp add: pow2_def)
qed

lemma fl_round_9280_frames:
  "fl_round (5224175567749775 / 9007199254740992 / frame_length)
     = Some (8162774324609023 / 281474976710656)"
proof -
  have "fl_round (5224175567749775 / 9007199254740992 / frame_length)
          = Some (of_int 8162774324609023 * pow2 (4 - 52))"
    by (rule fl_round_eval) (simp_all add: pow2_def frame_length_def round_half_even_nearest)
  then show ?thesis by (simp add: pow2_def)
qed

lemma start_index_9280: "start_index 9280 = Inr 28"
proof -
  have "start_index 9280 = Inr \<lfloor>8162774324609023 / 281474976710656 :: rat\<rfloor>"
    by (rule frame_quotient_eval(2)[where t = "5224175567749775 / 9007199254740992"])
       (simp_all only: of_int_numeral fl_round_9280 fl_round_9280_frames)
  then show ?thesis by (simp add: floor_eq_iff)
qed

lemma stop_index_2240: "stop_index 2240 = Inr 8"
proof -
  have "stop_index 2240 = Inr \<lceil>7881299347898369 / 1125899906842624 :: rat\<rceil>"
    by (rule frame_quotient_eval(3)[where t = "1261007895663739 / 9007199254740992"])
       (simp_all only: of_int_numeral fl_round_2240 fl_round_2240_frames)
  then show ?thesis by (simp add: ceiling_eq_iff)
qed




lemma single_segment_run:
  assumes "start_index s = Inr a" "stop_index t = Inr b"
    and "phoneme_states waveform (py_range a b) = Inr vs"
  shows "sort_states_per_phoneme [\<lparr>start = [s], stop = [t], utterance = [p]\<rparr>] [(0, [(0, waveform)])] 1
           = Inr [(0, [(p, vs)])]"
  using assms
  by (simp add: sort_states_per_phoneme_def phoneme_indeces_def segments_def dict_getitem_def)

lemma computed_indeces_ok:
  assumes "offsets_ok phonemes"
  shows "computed_indeces phonemes p = concat (map segment_range (labelled p (segments phonemes)))"
    and "\<forall>idx \<in> set (computed_indeces phonemes p). 0 \<le> idx"
proof -
  from phoneme_indeces_spec[OF assms] obtain pidx where
    run: "phoneme_indeces phonemes = Inr pidx"
    and get: "\<forall>p. dd_get pidx p = concat (map segment_range (labelled p (segments phonemes)))"
    by blast
  show eq: "computed_indeces phonemes p = concat (map segment_range (labelled p (segments phonemes)))"
    using run get by (simp add: computed_indeces_def)
  show "\<forall>idx \<in> set (computed_indeces phonemes p). 0 \<le> idx"
  proof
    fix idx assume "idx \<in> set (computed_indeces phonemes p)"
    then obtain seg where seg: "seg \<in> set (segments phonemes)" "idx \<in> set (segment_range seg)"
      unfolding eq by (auto simp: labelled_def)
    obtain s t q where "seg = (s, t, q)" by (cases seg)
    with seg assms show "0 \<le> idx"
      using segment_range_nonneg[of s idx t q] by (auto simp: offsets_ok_def)
  qed
qed

lemma utterance_states_computed:
  assumes "offsets_ok phonemes"
  shows "utterance_states w phonemes p =
           map (\<lambda>idx. w ! nat idx) (filter (\<lambda>idx. idx < int (length w)) (computed_indeces phonemes p))"
proof -
  have "utterance_states w phonemes p = kept_states w (computed_indeces phonemes p)"
    unfolding computed_indeces_ok(1)[OF assms] kept_states_concat utterance_states_def
    by (simp add: comp_def)
  then show ?thesis by (simp add: kept_states_def)
qed

lemma concat_map_cong:
  "(\<And>x. x \<in> set xs \<Longrightarrow> f x = g x) \<Longrightarrow> concat (map f xs) = concat (map g xs)"
  by (induction xs) simp_all

lemma table_states_cong:
  assumes "well_formed data frame_states num_layers"
    and "\<And>w phonemes. offsets_ok phonemes \<Longrightarrow> utterance_states w phonemes p = g w phonemes"
  shows "table_states data frame_states l p =
           concat (map (\<lambda>(l', layer). concat (map (\<lambda>(widx, w). g w (data ! widx)) layer))
                       (filter (\<lambda>(l', layer). l' = l) frame_states))"
  unfolding table_states_def layer_states_def
proof (rule concat_map_cong)
  fix entry assume "entry \<in> set (filter (\<lambda>(l', layer). l' = l) frame_states)"
  then have mem: "entry \<in> set frame_states" by simp
  obtain l' layer where entry: "entry = (l', layer)" by (cases entry)
  have "concat (map (\<lambda>(widx, w). utterance_states w (data ! widx) p) layer)
          = concat (map (\<lambda>(widx, w). g w (data ! widx)) layer)"
  proof (rule concat_map_cong)
    fix we assume we: "we \<in> set layer"
    obtain widx w where "we = (widx, w)" by (cases we)
    moreover from this we mem entry assms(1) have "offsets_ok (data ! widx)"
      by (fastforce simp: well_formed_def)
    ultimately show "(case we of (widx, w) \<Rightarrow> utterance_states w (data ! widx) p)
                       = (case we of (widx, w) \<Rightarrow> g w (data ! widx))"
      using assms(2) by simp
  qed
  then show "(case entry of (l', layer) \<Rightarrow>
                concat (map (\<lambda>(widx, w). utterance_states w (data ! widx) p) layer))
             = (case entry of (l', layer) \<Rightarrow> concat (map (\<lambda>(widx, w). g w (data ! widx)) layer))"
    by (simp add: entry)
qed





text \<open>
  Claim C1 at two offsets on frame boundaries. Sample 2240 is exactly 7 frames and
  sample 9280 exactly 29 frames, so the interval of the claim ends before frame 7
  for a segment that stops at 2240 and begins at frame 29 for one that starts at
  9280. The notebook's binary64 quotients are slightly above 7 and slightly below
  29: its \<^verbatim>\<open>stop_index\<close> is 8 and its \<^verbatim>\<open>start_index\<close> is 28, and the aligner files
  eight vectors, frames 0 to 7, for the segment from 0 to 2240.
\<close>

theorem aligner_frame_interval_drift:
  "stop_index 2240 = Inr 8 \<and> \<lceil>(2240 :: rat) / 16000 / (20 / 1000)\<rceil> = 7
   \<and> start_index 9280 = Inr 28 \<and> \<lfloor>(9280 :: rat) / 16000 / (20 / 1000)\<rfloor> = 29
   \<and> sort_states_per_phoneme [\<lparr>start = [0], stop = [2240], utterance = [''h#'']\<rparr>]
        [(0, [(0, [10, 11, 12, 13, 14, 15, 16, 17, 18, 19 :: nat])])] 1
       = Inr [(0, [(''h#'', [10, 11, 12, 13, 14, 15, 16, 17])])]"
proof -
  have "phoneme_states [10, 11, 12, 13, 14, 15, 16, 17, 18, 19 :: nat] (py_range 0 8)
          = Inr [10, 11, 12, 13, 14, 15, 16, 17]"
    by (simp add: py_range_def upto.simps list_getitem_def)
  from single_segment_run[OF start_index_zero stop_index_2240 this]
  show ?thesis
    using stop_index_2240 start_index_9280 by (simp add: floor_eq_iff ceiling_eq_iff)
qed

text \<open>
  Claim C3. On well-formed tables the aligner raises nothing, whatever the lengths of
  the frame lists, and the vectors it returns under a label at a layer are, utterance
  after utterance, the vectors of the frame list at those computed frame indices of
  the label that are strictly below the length of the frame list, in order: every
  computed index at or beyond the length is dropped. The computed indices are the
  entries of the notebook's \<^verbatim>\<open>phoneme_indeces\<close>, and none is negative.
\<close>

theorem aligner_discards_frames_beyond_length:
  assumes "well_formed data frame_states num_layers"
  shows "\<exists>fspp. sort_states_per_phoneme data frame_states num_layers = Inr fspp
           \<and> (\<forall>l p. states_at fspp l p =
                 concat (map (\<lambda>(l', layer).
                           concat (map (\<lambda>(waveform_idx, waveform).
                                     map (\<lambda>idx. waveform ! nat idx)
                                         (filter (\<lambda>idx. idx < int (length waveform))
                                                 (computed_indeces (data ! waveform_idx) p)))
                                       layer))
                             (filter (\<lambda>(l', layer). l' = l) frame_states)))
           \<and> (\<forall>(l, layer) \<in> set frame_states. \<forall>(waveform_idx, waveform) \<in> set layer.
                 \<exists>pidx. phoneme_indeces (data ! waveform_idx) = Inr pidx
                   \<and> (\<forall>p. computed_indeces (data ! waveform_idx) p = dd_get pidx p
                          \<and> (\<forall>idx \<in> set (dd_get pidx p). 0 \<le> idx)))"
proof -
  from sort_states_per_phoneme_spec[OF assms] obtain fspp where
    run: "sort_states_per_phoneme data frame_states num_layers = Inr fspp"
    and at: "\<forall>l p. states_at fspp l p = table_states data frame_states l p"
    by blast
  have tbl: "\<forall>l p. states_at fspp l p =
                 concat (map (\<lambda>(l', layer).
                           concat (map (\<lambda>(waveform_idx, waveform).
                                     map (\<lambda>idx. waveform ! nat idx)
                                         (filter (\<lambda>idx. idx < int (length waveform))
                                                 (computed_indeces (data ! waveform_idx) p)))
                                       layer))
                             (filter (\<lambda>(l', layer). l' = l) frame_states))"
    using at table_states_cong[OF assms utterance_states_computed] by simp
  have idx: "\<forall>(l, layer) \<in> set frame_states. \<forall>(waveform_idx, waveform) \<in> set layer.
                 \<exists>pidx. phoneme_indeces (data ! waveform_idx) = Inr pidx
                   \<and> (\<forall>p. computed_indeces (data ! waveform_idx) p = dd_get pidx p
                          \<and> (\<forall>idx \<in> set (dd_get pidx p). 0 \<le> idx))"
  proof (clarify)
    fix l layer waveform_idx and waveform :: "'a list"
    assume "(l, layer) \<in> set frame_states" "(waveform_idx, waveform) \<in> set layer"
    with assms have ok: "offsets_ok (data ! waveform_idx)" by (fastforce simp: well_formed_def)
    from phoneme_indeces_spec[OF ok] obtain pidx where
      p: "phoneme_indeces (data ! waveform_idx) = Inr pidx" by blast
    then have "\<forall>p. computed_indeces (data ! waveform_idx) p = dd_get pidx p"
      by (simp add: computed_indeces_def)
    moreover from this have "\<forall>p. \<forall>idx \<in> set (dd_get pidx p). 0 \<le> idx"
      using computed_indeces_ok(2)[OF ok] by metis
    ultimately show "\<exists>pidx. phoneme_indeces (data ! waveform_idx) = Inr pidx
                   \<and> (\<forall>p. computed_indeces (data ! waveform_idx) p = dd_get pidx p
                          \<and> (\<forall>idx \<in> set (dd_get pidx p). 0 \<le> idx))"
      using p by blast
  qed
  from run tbl idx show ?thesis by blast
qed

theorem aligner_discards_frames_beyond_length_witness:
  "well_formed [\<lparr>start = [0], stop = [16000], utterance = [''sh'']\<rparr>] [(0, [(0, [10, 20 :: nat])])] 1
   \<and> (\<exists>fspp. sort_states_per_phoneme [\<lparr>start = [0], stop = [16000], utterance = [''sh'']\<rparr>]
                 [(0, [(0, [10, 20 :: nat])])] 1 = Inr fspp
              \<and> fspp = [(0, [(''sh'', [10, 20])])]
              \<and> states_at fspp 0 ''sh'' = [10, 20])
   \<and> computed_indeces \<lparr>start = [0], stop = [16000], utterance = [''sh'']\<rparr> ''sh'' = [0..49]"
proof -
  let ?data = "[\<lparr>start = [0], stop = [16000], utterance = [''sh'']\<rparr>]"
  let ?fs = "[(0, [(0, [10, 20 :: nat])])] :: (nat \<times> (nat \<times> nat list) list) list"
  have wf: "well_formed ?data ?fs 1"
    by (simp add: well_formed_def offsets_ok_def segments_def)
  from aligner_discards_frames_beyond_length[OF wf] obtain fspp where
    run: "sort_states_per_phoneme ?data ?fs 1 = Inr fspp"
    and at: "\<forall>l p. states_at fspp l p =
                 concat (map (\<lambda>(l', layer).
                           concat (map (\<lambda>(waveform_idx, waveform).
                                     map (\<lambda>idx. waveform ! nat idx)
                                         (filter (\<lambda>idx. idx < int (length waveform))
                                                 (computed_indeces (?data ! waveform_idx) p)))
                                       layer))
                             (filter (\<lambda>(l', layer). l' = l) ?fs))"
    by blast
  have ci: "computed_indeces \<lparr>start = [0], stop = [16000], utterance = [''sh'']\<rparr> ''sh'' = [0..49]"
    by (simp add: computed_indeces_def phoneme_indeces_second dd_get_def)
  have keep: "filter (\<lambda>idx. idx < 2) [0..49] = [0, 1 :: int]" by (simp add: upto.simps)
  have a: "states_at fspp 0 ''sh'' = [10, 20]" using at by (simp add: ci keep)
  have "phoneme_states [10, 20 :: nat] (py_range 0 50) = Inr [10, 20]"
    by (simp add: py_range_def upto.simps list_getitem_def)
  from single_segment_run[OF start_index_zero stop_index_second this] run
  have "fspp = [(0, [(''sh'', [10, 20])])]" by simp
  with wf run a ci show ?thesis by blast
qed




text \<open>
  Claim C7. On well-formed tables the vectors filed under a label at a layer are the
  kept vectors of every segment carrying that label, utterance after utterance and
  segment after segment, with every repetition (\<open>table_states\<close>). So whenever a
  segment claims a frame index below the length of the frame list, the vector of
  that frame is filed under the segment's label, whichever other segments claim the
  same index: nothing is removed across labels.
\<close>

theorem aligner_keeps_overlapping_frames:
  assumes "well_formed data frame_states num_layers"
  shows "\<exists>fspp. sort_states_per_phoneme data frame_states num_layers = Inr fspp
           \<and> (\<forall>l p. states_at fspp l p = table_states data frame_states l p)
           \<and> (\<forall>(l, layer) \<in> set frame_states. \<forall>(widx, w) \<in> set layer.
                 \<forall>(s, t, p) \<in> set (segments (data ! widx)).
                   \<forall>i. \<lfloor>frame_quotient s\<rfloor> \<le> i \<and> i < \<lceil>frame_quotient t\<rceil> \<and> i < int (length w)
                     \<longrightarrow> w ! nat i \<in> set (states_at fspp l p))"
proof -
  from sort_states_per_phoneme_spec[OF assms] obtain fspp where
    run: "sort_states_per_phoneme data frame_states num_layers = Inr fspp"
    and at: "\<forall>l p. states_at fspp l p = table_states data frame_states l p"
    by blast
  have "\<forall>(l, layer) \<in> set frame_states. \<forall>(widx, w) \<in> set layer.
          \<forall>(s, t, p) \<in> set (segments (data ! widx)).
            \<forall>i. \<lfloor>frame_quotient s\<rfloor> \<le> i \<and> i < \<lceil>frame_quotient t\<rceil> \<and> i < int (length w)
              \<longrightarrow> w ! nat i \<in> set (states_at fspp l p)"
    using at table_states_member[of _ _ frame_states _ _ _ _ _ data] by auto
  with run at show ?thesis by blast
qed

theorem aligner_keeps_overlapping_frames_witness:
  "well_formed [\<lparr>start = [0, 2240], stop = [2240, 16000], utterance = [''h#'', ''sh'']\<rparr>]
     [(0, [(0, [10, 11, 12, 13, 14, 15, 16, 17, 18, 19 :: nat])])] 1
   \<and> (\<exists>fspp. sort_states_per_phoneme
                 [\<lparr>start = [0, 2240], stop = [2240, 16000], utterance = [''h#'', ''sh'']\<rparr>]
                 [(0, [(0, [10, 11, 12, 13, 14, 15, 16, 17, 18, 19 :: nat])])] 1 = Inr fspp
              \<and> states_at fspp 0 ''h#'' = [10, 11, 12, 13, 14, 15, 16, 17]
              \<and> states_at fspp 0 ''sh'' = [17, 18, 19])"
proof -
  let ?data = "[\<lparr>start = [0, 2240], stop = [2240, 16000], utterance = [''h#'', ''sh'']\<rparr>]"
  let ?fs = "[(0, [(0, [10, 11, 12, 13, 14, 15, 16, 17, 18, 19 :: nat])])]
               :: (nat \<times> (nat \<times> nat list) list) list"
  have wf: "well_formed ?data ?fs 1"
    by (simp add: well_formed_def offsets_ok_def segments_def)
  from aligner_keeps_overlapping_frames[OF wf] obtain fspp where
    run: "sort_states_per_phoneme ?data ?fs 1 = Inr fspp"
    and at: "\<forall>l p. states_at fspp l p = table_states ?data ?fs l p"
    by blast
  have r1: "filter (\<lambda>idx. idx < 10) [0..7] = [0, 1, 2, 3, 4, 5, 6, 7 :: int]"
    by (simp add: upto.simps)
  have r2: "filter (\<lambda>idx. idx < 10) [7..49] = [7, 8, 9 :: int]"
    by (simp add: upto.simps)
  have "states_at fspp 0 ''h#'' = [10, 11, 12, 13, 14, 15, 16, 17]"
    using at
    by (simp add: table_states_def layer_states_def utterance_states_def labelled_def segments_def
        segment_range_def py_range_def kept_states_def frame_quotient_0 frames_2240
        frame_quotient_16000 r1)
  moreover have "states_at fspp 0 ''sh'' = [17, 18, 19]"
    using at
    by (simp add: table_states_def layer_states_def utterance_states_def labelled_def segments_def
        segment_range_def py_range_def kept_states_def frame_quotient_0 frames_2240
        frame_quotient_16000 r2)
  ultimately show ?thesis using wf run by blast
qed

section \<open>Claims about the balanced dataset builder\<close>

lemma labels_class_instances:
  "map snd (class_instances l ps) = replicate (count_list (map snd ps) l) l"
  by (induction ps) (auto simp: class_instances_def)

lemma count_list_replicate_if: "count_list (replicate n x) y = (if x = y then n else 0)"
  by (induction n) auto

lemma labels_balanced:
  "map snd (balanced m ps K) =
     concat (map (\<lambda>l. replicate (min m (count_list (map snd ps) l)) l) K)"
  by (induction K)
     (simp_all add: balanced_def take_map[symmetric] labels_class_instances min.commute)

lemma count_list_blocks:
  "distinct K \<Longrightarrow>
   count_list (concat (map (\<lambda>l. replicate (f l) l) K)) l = (if l \<in> set K then f l else 0)"
  by (induction K) (auto simp: count_list_replicate_if)

lemma set_blocks:
  "(\<forall>l \<in> set K. 0 < f l) \<Longrightarrow> set (concat (map (\<lambda>l. replicate (f l) l) K)) = set K"
  by (induction K) auto

lemma remdups_replicate_append:
  "x \<notin> set ys \<Longrightarrow> 0 < n \<Longrightarrow> remdups (replicate n x @ ys) = x # remdups ys"
  by (induction n) auto

lemma remdups_blocks:
  "distinct K \<Longrightarrow> (\<forall>l \<in> set K. 0 < f l) \<Longrightarrow>
   remdups (concat (map (\<lambda>l. replicate (f l) l) K)) = K"
proof (induction K)
  case Nil
  then show ?case by simp
next
  case (Cons k K)
  have rest: "set (concat (map (\<lambda>l. replicate (f l) l) K)) = set K"
    using Cons.prems(2) by (intro set_blocks) simp
  let ?B = "concat (map (\<lambda>l. replicate (f l) l) K)"
  have "k \<notin> set K" using Cons.prems(1) by simp
  then have fresh: "k \<notin> set ?B" unfolding rest .
  have pos: "0 < f k" using Cons.prems(2) by simp
  have ih: "remdups ?B = K" using Cons by simp
  show ?case
    using remdups_replicate_append[OF fresh pos] ih by simp
qed

lemma first_order_blocks:
  assumes "distinct K" "\<forall>l \<in> set K. 0 < f l"
  shows "first_order (concat (map (\<lambda>l. replicate (f l) l) K)) = K"
proof -
  have "rev (concat (map (\<lambda>l. replicate (f l) l) K)) = concat (map (\<lambda>l. replicate (f l) l) (rev K))"
    by (simp add: rev_concat rev_map comp_def)
  moreover have "remdups (concat (map (\<lambda>l. replicate (f l) l) (rev K))) = rev K"
    using assms by (intro remdups_blocks) simp_all
  ultimately show ?thesis by (simp add: first_order_def)
qed

lemma class_instances_take:
  "class_instances l (take m (class_instances k ps)) =
     (if k = l then take m (class_instances k ps) else [])"
proof -
  have "\<forall>p \<in> set (take m (class_instances k ps)). snd p = k"
    by (auto simp: class_instances_def dest: in_set_takeD)
  then show ?thesis
    unfolding class_instances_def[of l] by (auto simp: filter_empty_conv filter_id_conv)
qed

lemma class_instances_balanced:
  "distinct K \<Longrightarrow>
   class_instances l (balanced m ps K) = (if l \<in> set K then take m (class_instances l ps) else [])"
proof (induction K)
  case Nil
  then show ?case by (simp add: balanced_def class_instances_def)
next
  case (Cons k K)
  have split: "class_instances l (balanced m ps (k # K)) =
          class_instances l (take m (class_instances k ps)) @ class_instances l (balanced m ps K)"
    by (simp add: balanced_def class_instances_def)
  show ?case
    unfolding split class_instances_take using Cons by auto
qed

lemma labels_balanced_min:
  "map snd (balanced (min_count (map snd ps)) ps (first_order (map snd ps))) =
     concat (map (\<lambda>l. replicate (min_count (map snd ps)) l) (first_order (map snd ps)))"
proof -
  have "min (min_count (map snd ps)) (count_list (map snd ps) l) = min_count (map snd ps)"
    if "l \<in> set (first_order (map snd ps))" for l
    using that min_count_bounds(2)[of l "map snd ps"] by (simp add: set_first_order del: set_map)
  then show ?thesis
    unfolding labels_balanced by (intro arg_cong[where f = concat] map_cong) simp_all
qed

lemma balanced_counts:
  assumes "l \<in> set (map snd ps)"
  shows "count_list (map snd (balanced (min_count (map snd ps)) ps (first_order (map snd ps)))) l
           = min_count (map snd ps)"
  unfolding labels_balanced_min
  using assms count_list_blocks[OF distinct_first_order, of "\<lambda>_. min_count (map snd ps)" "map snd ps" l]
  by (simp add: set_first_order del: set_map)

lemma balanced_labels_set:
  assumes "ps \<noteq> []"
  shows "set (map snd (balanced (min_count (map snd ps)) ps (first_order (map snd ps))))
           = set (map snd ps)"
proof -
  have "\<forall>l \<in> set (first_order (map snd ps)). 0 < min_count (map snd ps)"
    using min_count_bounds(1)[of _ "map snd ps"] by (fastforce simp: set_first_order simp del: set_map)
  from set_blocks[of "first_order (map snd ps)" "\<lambda>_. min_count (map snd ps)", OF this]
  show ?thesis unfolding labels_balanced_min by (simp add: set_first_order del: set_map)
qed

text \<open>
  Claim C2. For a non-empty list of (vector, label) pairs, \<^verbatim>\<open>balance_classes\<close> on its
  vectors and its labels returns, for each distinct label in the order of its first
  occurrence, the first \<open>m\<close> pairs that carry the label, in input order, where \<open>m\<close> is
  the smallest class count of the input. Every label of the input occurs exactly
  \<open>m\<close> times in the result, and no other label occurs.
\<close>

theorem balance_classes_first_instances:
  assumes "ps \<noteq> []"
  shows "\<exists>m R. m = Min (count_list (map snd ps) ` set (map snd ps))
           \<and> R = concat (map (\<lambda>l. take m (filter (\<lambda>p. snd p = l) ps))
                              (rev (remdups (rev (map snd ps)))))
           \<and> balance_classes (map fst ps) (map snd ps) = Inr (map fst R, map snd R)
           \<and> (\<forall>l \<in> set (map snd ps). count_list (map snd R) l = m)
           \<and> set (map snd R) = set (map snd ps)"
proof -
  let ?m = "min_count (map snd ps)"
  let ?R = "balanced ?m ps (first_order (map snd ps))"
  have "?m = Min (count_list (map snd ps) ` set (map snd ps))" by (simp only: min_count_def)
  moreover have "?R = concat (map (\<lambda>l. take ?m (filter (\<lambda>p. snd p = l) ps))
                              (rev (remdups (rev (map snd ps)))))"
    by (simp only: balanced_def first_order_def class_instances_def)
  moreover have "balance_classes (map fst ps) (map snd ps) = Inr (map fst ?R, map snd ?R)"
    using assms by (rule balance_classes_spec)
  moreover have "\<forall>l \<in> set (map snd ps). count_list (map snd ?R) l = ?m"
    using balanced_counts[of _ ps] by blast
  moreover have "set (map snd ?R) = set (map snd ps)"
    using assms by (rule balanced_labels_set)
  ultimately show ?thesis by blast
qed

theorem balance_classes_first_instances_witness:
  "[(1::nat, ''m''), (2, ''n''), (3, ''m''), (4, ''ng''), (5, ''n''), (6, ''m''), (7, ''ng'')] \<noteq> []
   \<and> balance_classes [1::nat, 2, 3, 4, 5, 6, 7] [''m'', ''n'', ''m'', ''ng'', ''n'', ''m'', ''ng'']
       = Inr ([1, 3, 2, 5, 4, 7], [''m'', ''m'', ''n'', ''n'', ''ng'', ''ng''])"
proof -
  let ?ps = "[(1::nat, ''m''), (2, ''n''), (3, ''m''), (4, ''ng''), (5, ''n''), (6, ''m''), (7, ''ng'')]"
  have ne: "?ps \<noteq> []" by simp
  from balance_classes_first_instances[OF ne] obtain m R where
    m: "m = Min (count_list (map snd ?ps) ` set (map snd ?ps))"
    and R: "R = concat (map (\<lambda>l. take m (filter (\<lambda>p. snd p = l) ?ps))
                            (rev (remdups (rev (map snd ?ps)))))"
    and run: "balance_classes (map fst ?ps) (map snd ?ps) = Inr (map fst R, map snd R)"
    by blast
  have "m = 2" unfolding m by simp
  then have "R = [(1, ''m''), (3, ''m''), (2, ''n''), (5, ''n''), (4, ''ng''), (7, ''ng'')]"
    unfolding R by simp
  with run show ?thesis by simp
qed

lemma balanced_fixed:
  assumes "ps \<noteq> []" and R_def: "R = balanced (min_count (map snd ps)) ps (first_order (map snd ps))"
  shows "R \<noteq> []"
    and "balanced (min_count (map snd R)) R (first_order (map snd R)) = R"
proof -
  let ?ys = "map snd ps"
  let ?m = "min_count ?ys"
  let ?K = "first_order ?ys"
  have labels: "map snd R = concat (map (\<lambda>l. replicate ?m l) ?K)"
    unfolding R_def by (rule labels_balanced_min)
  have set_R: "set (map snd R) = set ?ys"
    unfolding R_def using assms(1) by (rule balanced_labels_set)
  have "set ?ys \<noteq> {}" using assms(1) by simp
  then have "set (map snd R) \<noteq> {}" unfolding set_R .
  then show ne: "R \<noteq> []" by auto
  have pos: "\<forall>l \<in> set ?K. 0 < ?m"
    using min_count_bounds(1)[of _ ?ys] by (fastforce simp: set_first_order simp del: set_map)
  have K': "first_order (map snd R) = ?K"
    unfolding labels using distinct_first_order pos by (rule first_order_blocks)
  have counts: "count_list (map snd R) l = ?m" if "l \<in> set ?ys" for l
    unfolding R_def using that by (rule balanced_counts)
  have "count_list (map snd R) ` set ?ys = (\<lambda>l. ?m) ` set ?ys"
    using counts by (intro image_cong) simp_all
  also have "\<dots> = {?m}" using \<open>set ?ys \<noteq> {}\<close> by (simp only: image_constant_conv if_False)
  finally have "count_list (map snd R) ` set (map snd R) = {?m}" unfolding set_R .
  then have m': "min_count (map snd R) = ?m" by (simp add: min_count_def)
  have "take ?m (class_instances l R) = take ?m (class_instances l ps)" if "l \<in> set ?K" for l
    unfolding R_def class_instances_balanced[OF distinct_first_order] using that by simp
  then have "map (\<lambda>l. take ?m (class_instances l R)) ?K = map (\<lambda>l. take ?m (class_instances l ps)) ?K"
    by simp
  then have "balanced ?m R ?K = balanced ?m ps ?K" by (simp only: balanced_def)
  then show "balanced (min_count (map snd R)) R (first_order (map snd R)) = R"
    unfolding m' K' by (simp only: R_def)
qed

text \<open>
  Claim C9. For a non-empty list of pairs, \<^verbatim>\<open>balance_classes\<close> returns a dataset on
  which \<^verbatim>\<open>balance_classes\<close> returns the same dataset again; so the class counts,
  the \<^verbatim>\<open>Counter\<close> of the labels, are unchanged by the second application.
\<close>

theorem balance_classes_idempotent:
  assumes "ps \<noteq> []"
  shows "\<exists>X' y'. balance_classes (map fst ps) (map snd ps) = Inr (X', y')
           \<and> (\<exists>X'' y''. balance_classes X' y' = Inr (X'', y'')
                 \<and> Counter y'' = Counter y'
                 \<and> (\<forall>l. count_list y'' l = count_list y' l)
                 \<and> X'' = X' \<and> y'' = y')"
proof -
  define R where "R = balanced (min_count (map snd ps)) ps (first_order (map snd ps))"
  have first: "balance_classes (map fst ps) (map snd ps) = Inr (map fst R, map snd R)"
    unfolding R_def using assms by (rule balance_classes_spec)
  have ne: "R \<noteq> []" using assms R_def by (rule balanced_fixed(1))
  have fixed: "balanced (min_count (map snd R)) R (first_order (map snd R)) = R"
    using assms R_def by (rule balanced_fixed(2))
  have second: "balance_classes (map fst R) (map snd R) = Inr (map fst R, map snd R)"
    using balance_classes_spec[OF ne] unfolding fixed .
  from first second show ?thesis by simp
qed

theorem balance_classes_idempotent_witness:
  "[(1::nat, ''m''), (2, ''n''), (3, ''m'')] \<noteq> []
   \<and> balance_classes [1::nat, 2, 3] [''m'', ''n'', ''m''] = Inr ([1, 2], [''m'', ''n''])
   \<and> balance_classes [1::nat, 2] [''m'', ''n''] = Inr ([1, 2], [''m'', ''n''])"
proof -
  let ?ps = "[(1::nat, ''m''), (2, ''n''), (3, ''m'')]"
  have ne: "?ps \<noteq> []" by simp
  have first: "balance_classes [1::nat, 2, 3] [''m'', ''n'', ''m''] = Inr ([1, 2], [''m'', ''n''])"
    by (simp add: balance_classes_def Counter_def)
  from balance_classes_idempotent[OF ne] first
  have "balance_classes [1::nat, 2] [''m'', ''n''] = Inr ([1, 2], [''m'', ''n''])" by simp
  with first show ?thesis by simp
qed

section \<open>Claims about the label collapser and the data loader\<close>

lemma hidden_state_loop_error:
  "hidden_state_loop p target vs acc = Inl e \<Longrightarrow> e = KeyError"
  by (induction p target vs acc rule: hidden_state_loop.induct)
     (auto simp: dict_getitem_def split: if_splits option.splits sum.splits)

lemma hidden_state_loop_absent:
  assumes "p \<noteq> ''q''" "map_of phoneme_mapping p = None"
    and "target = None \<or> (\<exists>targets. target = Some targets \<and> p \<in> set targets)"
    and "Some v \<in> set vs"
  shows "hidden_state_loop p target vs acc = Inl KeyError"
  using assms(4)
proof (induction vs arbitrary: acc)
  case Nil
  then show ?case by simp
next
  case (Cons i vs)
  obtain X y where acc: "acc = (X, y)" by (cases acc)
  show ?case
  proof (cases i)
    case None
    then have "Some v \<in> set vs" using Cons.prems by auto
    from Cons.IH[OF this] show ?thesis by (simp add: acc None)
  next
    case (Some w)
    then show ?thesis
      using assms(1,2,3) by (auto simp: acc dict_getitem_def)
  qed
qed

lemma phoneme_loop_error:
  "phoneme_loop target d acc = Inl e \<Longrightarrow> e = KeyError"
proof (induction d arbitrary: acc)
  case Nil
  then show ?case by simp
next
  case (Cons entry d)
  obtain p vs where entry: "entry = (p, vs)" by (cases entry)
  from Cons.prems show ?case
    unfolding entry
    by (auto split: sum.splits dest: hidden_state_loop_error Cons.IH)
qed

lemma phoneme_loop_absent:
  assumes "p \<noteq> ''q''" "map_of phoneme_mapping p = None"
    and "target = None \<or> (\<exists>targets. target = Some targets \<and> p \<in> set targets)"
    and "(p, vs) \<in> set d" "Some v \<in> set vs"
  shows "phoneme_loop target d acc = Inl KeyError"
  using assms(4)
proof (induction d arbitrary: acc)
  case Nil
  then show ?case by simp
next
  case (Cons entry d)
  obtain p' vs' where entry: "entry = (p', vs')" by (cases entry)
  show ?case
  proof (cases "hidden_state_loop p' target vs' acc")
    case (Inl e)
    then have "e = KeyError" by (rule hidden_state_loop_error)
    with Inl show ?thesis by (simp add: entry)
  next
    case (Inr acc')
    have "entry \<noteq> (p, vs)"
    proof
      assume "entry = (p, vs)"
      then have "hidden_state_loop p' target vs' acc = Inl KeyError"
        using hidden_state_loop_absent[OF assms(1,2,3,5), of acc] entry by simp
      with Inr show False by simp
    qed
    then have "(p, vs) \<in> set d" using Cons.prems by auto
    from Cons.IH[OF this] Inr show ?thesis by (simp add: entry)
  qed
qed

lemma phoneme_mapping_keys:
  "distinct (map fst phoneme_mapping)" "length phoneme_mapping = 60"
  "''q'' \<notin> fst ` set phoneme_mapping" "card (snd ` set phoneme_mapping) = 39"
  by (simp_all add: phoneme_mapping_def)

lemma inventory_covered:
  assumes "distinct corpus" "length corpus = 61" "''q'' \<in> set corpus"
    and "fst ` set phoneme_mapping \<subseteq> set corpus"
  shows "set corpus - {''q''} = fst ` set phoneme_mapping"
proof -
  have "card (set corpus) = 61" using assms(1,2) by (simp add: distinct_card)
  then have c: "card (set corpus - {''q''}) = 60" using assms(3) by simp
  have "card (fst ` set phoneme_mapping) = 60"
    using phoneme_mapping_keys(1,2) distinct_card[of "map fst phoneme_mapping"] by simp
  moreover have "fst ` set phoneme_mapping \<subseteq> set corpus - {''q''}"
    using assms(4) phoneme_mapping_keys(3) by blast
  ultimately show ?thesis using c by (intro card_subset_eq[symmetric]) simp_all
qed

text \<open>
  Claim C4. The lookup \<^verbatim>\<open>phoneme_mapping[phoneme]\<close> returns the coarse label of every
  label of the table and raises KeyError for every label that is not a key, and
  \<^verbatim>\<open>data_loader\<close> raises KeyError when a selected label other than \<open>q\<close> that has a
  hidden state is not a key. The table has 60 distinct keys, \<open>q\<close> is not one of
  them, and they are mapped to 39 coarse labels. Hence, for any inventory of 61
  distinct labels that contains \<open>q\<close> and every key of the table, every label of the
  inventory except \<open>q\<close> is a key; the 61 labels of the corpus are such an inventory.
\<close>

theorem label_collapser_fails_loudly:
  "(\<forall>p c. (p, c) \<in> set phoneme_mapping \<longrightarrow> dict_getitem phoneme_mapping p = Inr c)
   \<and> (\<forall>p. p \<notin> fst ` set phoneme_mapping \<longrightarrow> dict_getitem phoneme_mapping p = Inl KeyError)
   \<and> (\<forall>tbl layer_idx d p vs v target.
         map_of tbl layer_idx = Some d \<and> (p, vs) \<in> set d \<and> Some v \<in> set vs
         \<and> p \<noteq> ''q'' \<and> p \<notin> fst ` set phoneme_mapping
         \<and> (target = None \<or> (\<exists>targets. target = Some targets \<and> p \<in> set targets))
         \<longrightarrow> data_loader tbl layer_idx target = (Inl KeyError :: error + 'v list \<times> string list))
   \<and> ''q'' \<notin> fst ` set phoneme_mapping
   \<and> distinct (map fst phoneme_mapping) \<and> length phoneme_mapping = 60
   \<and> card (snd ` set phoneme_mapping) = 39
   \<and> (\<forall>corpus. distinct corpus \<and> length corpus = 61 \<and> ''q'' \<in> set corpus
         \<and> fst ` set phoneme_mapping \<subseteq> set corpus
         \<longrightarrow> (\<forall>p \<in> set corpus. p \<noteq> ''q'' \<longrightarrow> p \<in> fst ` set phoneme_mapping))"
proof (intro conjI allI impI ballI)
  fix p c assume "(p, c) \<in> set phoneme_mapping"
  then have "map_of phoneme_mapping p = Some c"
    using phoneme_mapping_keys(1) by simp
  then show "dict_getitem phoneme_mapping p = Inr c" by (simp add: dict_getitem_def)
next
  fix p assume "p \<notin> fst ` set phoneme_mapping"
  then have "map_of phoneme_mapping p = None" by (simp add: map_of_eq_None_iff)
  then show "dict_getitem phoneme_mapping p = Inl KeyError" by (simp add: dict_getitem_def)
next
  fix tbl :: "'v option phoneme_table" and layer_idx d p vs v target
  assume a: "map_of tbl layer_idx = Some d \<and> (p, vs) \<in> set d \<and> Some v \<in> set vs
         \<and> p \<noteq> ''q'' \<and> p \<notin> fst ` set phoneme_mapping
         \<and> (target = None \<or> (\<exists>targets. target = Some targets \<and> p \<in> set targets))"
  then have none: "map_of phoneme_mapping p = None" by (simp add: map_of_eq_None_iff)
  have "phoneme_loop target d ([], []) = Inl KeyError"
    using a none by (intro phoneme_loop_absent[of p target vs d v]) simp_all
  then show "data_loader tbl layer_idx target = Inl KeyError"
    using a by (simp add: data_loader_def dict_getitem_def)
next
  fix corpus p
  assume "distinct corpus \<and> length corpus = 61 \<and> ''q'' \<in> set corpus
         \<and> fst ` set phoneme_mapping \<subseteq> set corpus"
    and "p \<in> set corpus" "p \<noteq> ''q''"
  then show "p \<in> fst ` set phoneme_mapping"
    using inventory_covered[of corpus] by auto
qed (simp_all add: phoneme_mapping_keys)

lemma inventory_distinct:
  "distinct [''aa'', ''ae'', ''ah'', ''ao'', ''aw'', ''ax'', ''ax-h'', ''axr'', ''ay'', ''b'', ''bcl'',
      ''ch'', ''d'', ''dcl'', ''dh'', ''dx'', ''eh'', ''el'', ''em'', ''en'', ''eng'', ''epi'',
      ''er'', ''ey'', ''f'', ''g'', ''gcl'', ''h#'', ''hh'', ''hv'', ''ih'', ''ix'', ''iy'',
      ''jh'', ''k'', ''kcl'', ''l'', ''m'', ''n'', ''ng'', ''nx'', ''ow'', ''oy'', ''p'', ''pau'',
      ''pcl'', ''q'', ''r'', ''s'', ''sh'', ''t'', ''tcl'', ''th'', ''uh'', ''uw'', ''ux'', ''v'',
      ''w'', ''y'', ''z'', ''zh'']"
  by simp

lemma inventory_has_keys:
  "fst ` set phoneme_mapping \<subseteq> set [''aa'', ''ae'', ''ah'', ''ao'', ''aw'', ''ax'', ''ax-h'', ''axr'', ''ay'', ''b'', ''bcl'',
      ''ch'', ''d'', ''dcl'', ''dh'', ''dx'', ''eh'', ''el'', ''em'', ''en'', ''eng'', ''epi'',
      ''er'', ''ey'', ''f'', ''g'', ''gcl'', ''h#'', ''hh'', ''hv'', ''ih'', ''ix'', ''iy'',
      ''jh'', ''k'', ''kcl'', ''l'', ''m'', ''n'', ''ng'', ''nx'', ''ow'', ''oy'', ''p'', ''pau'',
      ''pcl'', ''q'', ''r'', ''s'', ''sh'', ''t'', ''tcl'', ''th'', ''uh'', ''uw'', ''ux'', ''v'',
      ''w'', ''y'', ''z'', ''zh'']"
proof -
  have "set (map fst phoneme_mapping) \<subseteq> set [''aa'', ''ae'', ''ah'', ''ao'', ''aw'', ''ax'', ''ax-h'', ''axr'', ''ay'', ''b'', ''bcl'',
      ''ch'', ''d'', ''dcl'', ''dh'', ''dx'', ''eh'', ''el'', ''em'', ''en'', ''eng'', ''epi'',
      ''er'', ''ey'', ''f'', ''g'', ''gcl'', ''h#'', ''hh'', ''hv'', ''ih'', ''ix'', ''iy'',
      ''jh'', ''k'', ''kcl'', ''l'', ''m'', ''n'', ''ng'', ''nx'', ''ow'', ''oy'', ''p'', ''pau'',
      ''pcl'', ''q'', ''r'', ''s'', ''sh'', ''t'', ''tcl'', ''th'', ''uh'', ''uw'', ''ux'', ''v'',
      ''w'', ''y'', ''z'', ''zh'']"
    by code_simp
  then show ?thesis by (simp only: set_map)
qed

theorem label_collapser_fails_loudly_witness:
  "(''ax-h'', ''ah'') \<in> set phoneme_mapping
   \<and> dict_getitem phoneme_mapping ''ax-h'' = Inr ''ah''
   \<and> ''xx'' \<notin> fst ` set phoneme_mapping
   \<and> dict_getitem phoneme_mapping ''xx'' = Inl KeyError
   \<and> data_loader [(0, [(''m'', [Some (1::nat)]), (''xx'', [Some 2])])] 0 None = Inl KeyError
   \<and> set [''aa'', ''ae'', ''ah'', ''ao'', ''aw'', ''ax'', ''ax-h'', ''axr'', ''ay'', ''b'', ''bcl'',
      ''ch'', ''d'', ''dcl'', ''dh'', ''dx'', ''eh'', ''el'', ''em'', ''en'', ''eng'', ''epi'',
      ''er'', ''ey'', ''f'', ''g'', ''gcl'', ''h#'', ''hh'', ''hv'', ''ih'', ''ix'', ''iy'',
      ''jh'', ''k'', ''kcl'', ''l'', ''m'', ''n'', ''ng'', ''nx'', ''ow'', ''oy'', ''p'', ''pau'',
      ''pcl'', ''q'', ''r'', ''s'', ''sh'', ''t'', ''tcl'', ''th'', ''uh'', ''uw'', ''ux'', ''v'',
      ''w'', ''y'', ''z'', ''zh''] - {''q''} \<subseteq> fst ` set phoneme_mapping"
proof -
  let ?corpus = "[''aa'', ''ae'', ''ah'', ''ao'', ''aw'', ''ax'', ''ax-h'', ''axr'', ''ay'', ''b'', ''bcl'',
      ''ch'', ''d'', ''dcl'', ''dh'', ''dx'', ''eh'', ''el'', ''em'', ''en'', ''eng'', ''epi'',
      ''er'', ''ey'', ''f'', ''g'', ''gcl'', ''h#'', ''hh'', ''hv'', ''ih'', ''ix'', ''iy'',
      ''jh'', ''k'', ''kcl'', ''l'', ''m'', ''n'', ''ng'', ''nx'', ''ow'', ''oy'', ''p'', ''pau'',
      ''pcl'', ''q'', ''r'', ''s'', ''sh'', ''t'', ''tcl'', ''th'', ''uh'', ''uw'', ''ux'', ''v'',
      ''w'', ''y'', ''z'', ''zh'']"
  let ?d = "[(''m'', [Some (1::nat)]), (''xx'', [Some 2])]"
  note c = label_collapser_fails_loudly
  note c1 = c[THEN conjunct1, rule_format]
  note c2 = c[THEN conjunct2, THEN conjunct1, rule_format]
  note c3 = c[THEN conjunct2, THEN conjunct2, THEN conjunct1, rule_format]
  note c8 = c[THEN conjunct2, THEN conjunct2, THEN conjunct2, THEN conjunct2, THEN conjunct2,
              THEN conjunct2, THEN conjunct2, rule_format]
  have present: "(''ax-h'', ''ah'') \<in> set phoneme_mapping" by (simp add: phoneme_mapping_def)
  have absent: "''xx'' \<notin> fst ` set phoneme_mapping" by (simp add: phoneme_mapping_def)
  have 1: "dict_getitem phoneme_mapping ''ax-h'' = Inr ''ah''" using present by (rule c1)
  have 2: "dict_getitem phoneme_mapping ''xx'' = Inl KeyError" using absent by (rule c2)
  have "map_of [(0 :: nat, ?d)] 0 = Some ?d \<and> (''xx'', [Some 2]) \<in> set ?d
        \<and> Some 2 \<in> set [Some (2::nat)] \<and> ''xx'' \<noteq> ''q'' \<and> ''xx'' \<notin> fst ` set phoneme_mapping
        \<and> ((None :: string list option) = None
             \<or> (\<exists>targets. (None :: string list option) = Some targets \<and> ''xx'' \<in> set targets))"
    using absent by simp
  then have 3: "data_loader [(0, ?d)] 0 None = Inl KeyError" by (rule c3)
  have len: "length ?corpus = 61" by simp
  have q: "''q'' \<in> set ?corpus" by simp
  have hyp: "distinct ?corpus \<and> length ?corpus = 61 \<and> ''q'' \<in> set ?corpus
             \<and> fst ` set phoneme_mapping \<subseteq> set ?corpus"
    using inventory_distinct len q inventory_has_keys by (intro conjI)
  have 4: "set ?corpus - {''q''} \<subseteq> fst ` set phoneme_mapping"
  proof (rule subsetI)
    fix x assume x: "x \<in> set ?corpus - {''q''}"
    from x have "x \<in> set ?corpus" by (rule DiffD1)
    moreover from x have "x \<noteq> ''q''" by blast
    ultimately show "x \<in> fst ` set phoneme_mapping" using c8[OF hyp] by blast
  qed
  from present 1 absent 2 3 4 show ?thesis by (intro conjI)
qed

lemma hidden_state_loop_skip:
  assumes "p = ''q'' \<or> (\<exists>targets. target = Some targets \<and> p \<notin> set targets)"
  shows "hidden_state_loop p target vs acc = Inr acc"
  using assms
  by (induction p target vs acc rule: hidden_state_loop.induct) auto

lemma hidden_state_loop_take:
  assumes "p \<noteq> ''q''" "case target of None \<Rightarrow> True | Some targets \<Rightarrow> p \<in> set targets"
    and "map_of phoneme_mapping p = Some c"
  shows "hidden_state_loop p target vs (X, y) =
           Inr (X @ map the (filter (\<lambda>i. i \<noteq> None) vs), y @ map (\<lambda>i. c) (filter (\<lambda>i. i \<noteq> None) vs))"
  using assms
  by (induction p target vs "(X, y)" arbitrary: X y rule: hidden_state_loop.induct)
     (auto simp: dict_getitem_def split: option.splits)

lemma hidden_state_loop_no_state:
  assumes "\<forall>i \<in> set vs. i = None"
  shows "hidden_state_loop p target vs acc = Inr acc"
  using assms
  by (induction p target vs acc rule: hidden_state_loop.induct) auto

lemma phoneme_loop_spec:
  assumes "\<forall>(p, vs) \<in> set d.
             p \<noteq> ''q'' \<and> (case target of None \<Rightarrow> True | Some targets \<Rightarrow> p \<in> set targets)
             \<and> (\<exists>v. Some v \<in> set vs)
             \<longrightarrow> map_of phoneme_mapping p = Some (coarse p)"
  shows "phoneme_loop target d (X, y) =
           Inr (X @ concat (map (\<lambda>(p, vs).
                      if p \<noteq> ''q'' \<and> (case target of None \<Rightarrow> True | Some targets \<Rightarrow> p \<in> set targets)
                      then map the (filter (\<lambda>i. i \<noteq> None) vs) else []) d),
                y @ concat (map (\<lambda>(p, vs).
                      if p \<noteq> ''q'' \<and> (case target of None \<Rightarrow> True | Some targets \<Rightarrow> p \<in> set targets)
                      then map (\<lambda>i. coarse p) (filter (\<lambda>i. i \<noteq> None) vs) else []) d))"
  using assms
proof (induction d arbitrary: X y)
  case Nil
  then show ?case by simp
next
  case (Cons entry d)
  obtain p vs where entry: "entry = (p, vs)" by (cases entry)
  let ?sel = "p \<noteq> ''q'' \<and> (case target of None \<Rightarrow> True | Some targets \<Rightarrow> p \<in> set targets)"
  have rest: "\<forall>(p, vs) \<in> set d.
             p \<noteq> ''q'' \<and> (case target of None \<Rightarrow> True | Some targets \<Rightarrow> p \<in> set targets)
             \<and> (\<exists>v. Some v \<in> set vs)
             \<longrightarrow> map_of phoneme_mapping p = Some (coarse p)"
    using Cons.prems by simp
  note ih = Cons.IH[OF rest]
  have step: "hidden_state_loop p target vs (X, y) =
           Inr (X @ (if ?sel then map the (filter (\<lambda>i. i \<noteq> None) vs) else []),
                y @ (if ?sel then map (\<lambda>i. coarse p) (filter (\<lambda>i. i \<noteq> None) vs) else []))"
  proof (cases ?sel)
    case False
    then have "p = ''q'' \<or> (\<exists>targets. target = Some targets \<and> p \<notin> set targets)"
      by (auto split: option.splits)
    then have "hidden_state_loop p target vs (X, y) = Inr (X, y)"
      by (rule hidden_state_loop_skip)
    then show ?thesis using False by auto
  next
    case True
    show ?thesis
    proof (cases "\<exists>v. Some v \<in> set vs")
      case False
      then have none: "\<forall>i \<in> set vs. i = None" by (metis not_Some_eq)
      then have "filter (\<lambda>i. i \<noteq> None) vs = []" by (simp add: filter_empty_conv)
      moreover have "hidden_state_loop p target vs (X, y) = Inr (X, y)"
        using none by (rule hidden_state_loop_no_state)
      ultimately show ?thesis by simp
    next
      case some: True
      with True Cons.prems have c: "map_of phoneme_mapping p = Some (coarse p)" by (simp add: entry)
      have "hidden_state_loop p target vs (X, y) =
           Inr (X @ map the (filter (\<lambda>i. i \<noteq> None) vs), y @ map (\<lambda>i. coarse p) (filter (\<lambda>i. i \<noteq> None) vs))"
        using True c by (intro hidden_state_loop_take) simp_all
      then show ?thesis using True by simp
    qed
  qed
  show ?case
    unfolding entry phoneme_loop.simps step by (simp add: ih)
qed

text \<open>
  Claim C10. \<^verbatim>\<open>data_loader\<close> selects by the fine-grained label: the hidden states of
  a label are kept exactly when the label is not \<open>q\<close> and, where a target list is
  given, the label itself is in the list; each kept state is paired with the coarse
  label of its label. Provided every selected label that has a state is a key of the
  table, \<^verbatim>\<open>data_loader\<close> returns exactly these states and coarse labels, in the
  order of the dict. So the states of \<open>em\<close>, \<open>en\<close>, \<open>nx\<close> and \<open>eng\<close> are left out under
  the targets \<open>m\<close>, \<open>n\<close>, \<open>ng\<close>, and those of \<open>q\<close> under every target.
\<close>

theorem data_loader_tests_fine_label:
  assumes "map_of hidden_state_dict layer_idx = Some d"
    and "\<forall>(p, vs) \<in> set d.
           p \<noteq> ''q'' \<and> (case target of None \<Rightarrow> True | Some targets \<Rightarrow> p \<in> set targets)
           \<and> (\<exists>v. Some v \<in> set vs)
           \<longrightarrow> map_of phoneme_mapping p = Some (coarse p)"
  shows "data_loader hidden_state_dict layer_idx target =
           Inr (concat (map (\<lambda>(p, vs).
                  if p \<noteq> ''q'' \<and> (case target of None \<Rightarrow> True | Some targets \<Rightarrow> p \<in> set targets)
                  then map the (filter (\<lambda>i. i \<noteq> None) vs) else []) d),
                concat (map (\<lambda>(p, vs).
                  if p \<noteq> ''q'' \<and> (case target of None \<Rightarrow> True | Some targets \<Rightarrow> p \<in> set targets)
                  then map (\<lambda>i. coarse p) (filter (\<lambda>i. i \<noteq> None) vs) else []) d))"
  using phoneme_loop_spec[OF assms(2), of "[]" "[]"] assms(1)
  by (simp add: data_loader_def dict_getitem_def)

theorem data_loader_tests_fine_label_witness:
  "map_of [(0 :: nat, [(''em'', [Some (1::nat)]), (''m'', [Some 2, None, Some 3]), (''q'', [Some 4]),
                      (''nx'', [Some 5]), (''eng'', [Some 6]), (''ng'', [Some 7]), (''en'', [Some 8])])] 0
     = Some [(''em'', [Some 1]), (''m'', [Some 2, None, Some 3]), (''q'', [Some 4]),
             (''nx'', [Some 5]), (''eng'', [Some 6]), (''ng'', [Some 7]), (''en'', [Some 8])]
   \<and> map_of phoneme_mapping ''m'' = Some ''m'' \<and> map_of phoneme_mapping ''ng'' = Some ''ng''
   \<and> map_of phoneme_mapping ''em'' = Some ''m'' \<and> map_of phoneme_mapping ''en'' = Some ''n''
   \<and> map_of phoneme_mapping ''nx'' = Some ''n'' \<and> map_of phoneme_mapping ''eng'' = Some ''ng''
   \<and> data_loader [(0, [(''em'', [Some (1::nat)]), (''m'', [Some 2, None, Some 3]), (''q'', [Some 4]),
                       (''nx'', [Some 5]), (''eng'', [Some 6]), (''ng'', [Some 7]), (''en'', [Some 8])])] 0
        (Some [''m'', ''n'', ''ng'', ''q''])
       = Inr ([2, 3, 7], [''m'', ''m'', ''ng''])"
proof -
  let ?d = "[(''em'', [Some (1::nat)]), (''m'', [Some 2, None, Some 3]), (''q'', [Some 4]),
             (''nx'', [Some 5]), (''eng'', [Some 6]), (''ng'', [Some 7]), (''en'', [Some 8])]"
  let ?coarse = "\<lambda>p. if p = ''m'' then ''m'' else ''ng''"
  have tbl: "map_of [(0 :: nat, ?d)] 0 = Some ?d" by simp
  have m: "map_of phoneme_mapping ''m'' = Some ''m''" "map_of phoneme_mapping ''ng'' = Some ''ng''"
    "map_of phoneme_mapping ''em'' = Some ''m''" "map_of phoneme_mapping ''en'' = Some ''n''"
    "map_of phoneme_mapping ''nx'' = Some ''n''" "map_of phoneme_mapping ''eng'' = Some ''ng''"
    by (simp_all add: phoneme_mapping_def)
  have sel: "\<forall>(p, vs) \<in> set ?d.
           p \<noteq> ''q'' \<and> (case Some [''m'', ''n'', ''ng'', ''q''] of None \<Rightarrow> True
                                | Some targets \<Rightarrow> p \<in> set targets)
           \<and> (\<exists>v. Some v \<in> set vs)
           \<longrightarrow> map_of phoneme_mapping p = Some (?coarse p)"
    using m by simp
  from data_loader_tests_fine_label[OF tbl sel]
  have "data_loader [(0, ?d)] 0 (Some [''m'', ''n'', ''ng'', ''q'']) = Inr ([2, 3, 7], [''m'', ''m'', ''ng''])"
    by simp
  with tbl m show ?thesis by simp
qed

section \<open>Claims about the probing loop\<close>

lemma single_class_labels:
  assumes "\<forall>p \<in> set ps. snd p = c"
  shows "map snd ps = replicate (length ps) c"
  using assms by (induction ps) auto

lemma balance_classes_single_class:
  assumes "ps \<noteq> []" "\<forall>p \<in> set ps. snd p = c"
  shows "balance_classes (map fst ps) (map snd ps) = Inr (map fst ps, map snd ps)"
proof -
  let ?n = "length ps"
  have n: "0 < ?n" using assms(1) by simp
  have ys: "map snd ps = replicate ?n c" using assms(2) by (rule single_class_labels)
  have "first_order (concat (map (\<lambda>l. replicate ?n l) [c])) = [c]"
    using n by (intro first_order_blocks) simp_all
  then have K: "first_order (map snd ps) = [c]" by (simp add: ys)
  have "count_list (replicate ?n c) ` set (replicate ?n c) = {?n}"
    using n by (simp add: count_list_replicate_if)
  then have m: "min_count (map snd ps) = ?n" by (simp add: min_count_def ys)
  have "class_instances c ps = ps"
    using assms(2) by (simp add: class_instances_def filter_id_conv)
  then have "balanced ?n ps [c] = ps" by (simp add: balanced_def)
  with balance_classes_spec[OF assms(1)] show ?thesis by (simp add: K m)
qed

lemma balance_classes_no_class: "balance_classes X [] = Inl ValueError"
  by (simp add: balance_classes_def Counter_def)

lemma accuracy_score_all_equal:
  assumes "ys \<noteq> []" "\<forall>y \<in> set ys. y = c"
  shows "accuracy_score ys (replicate (length ys) c) = Inr 1"
proof -
  have ys: "ys = replicate (length ys) c"
    using assms(2) by (induction ys) auto
  have "filter (\<lambda>(a, b). a = b) (zip (replicate n c) (replicate n c)) = zip (replicate n c) (replicate n c)" for n
    by (induction n) auto
  then have "length (filter (\<lambda>(a, b). a = b) (zip ys (replicate (length ys) c))) = length ys"
    by (subst (1 2) ys) (simp del: replicate_eq_replicate)
  then show ?thesis using assms(1) by (simp add: accuracy_score_def)
qed

text \<open>
  Claim C6, as amended. The notebook's code has no check on the number of classes.
  With no selected example \<^verbatim>\<open>balance_classes\<close> raises ValueError (the minimum of an
  empty sequence), and so does the body of the probing loop. With examples of one
  class only \<^verbatim>\<open>balance_classes\<close> returns them all, and the body of the loop passes
  them on: for a single-class test set its result is what \<^verbatim>\<open>accuracy_score\<close> gives
  for the predictions, which is 1 when every prediction is that class.
\<close>

theorem degenerate_dataset_not_checked:
  "balance_classes X [] = Inl ValueError
   \<and> (data_loader phoneme_states_train layer_idx (Some target_phonemes) = Inr ([], [])
        \<longrightarrow> probe_layer fit predict phoneme_states_train phoneme_states_test target_phonemes layer_idx
              = Inl ValueError)
   \<and> (ps \<noteq> [] \<and> (\<forall>p \<in> set ps. snd p = c)
        \<longrightarrow> balance_classes (map fst ps) (map snd ps) = Inr (map fst ps, map snd ps))
   \<and> (data_loader phoneme_states_train layer_idx (Some target_phonemes) = Inr (train_X, train_y)
        \<and> balance_classes train_X train_y = Inr (train_X', train_y')
        \<and> fit layer_idx train_X' train_y' = Inr probe
        \<and> data_loader phoneme_states_test layer_idx (Some target_phonemes) = Inr (map fst ps, map snd ps)
        \<and> ps \<noteq> [] \<and> (\<forall>p \<in> set ps. snd p = c)
        \<and> predict probe (map fst ps) = Inr test_pred
        \<longrightarrow> probe_layer fit predict phoneme_states_train phoneme_states_test target_phonemes layer_idx
              = accuracy_score (map snd ps) test_pred
            \<and> (test_pred = replicate (length ps) c
                 \<longrightarrow> probe_layer fit predict phoneme_states_train phoneme_states_test
                       target_phonemes layer_idx = Inr 1))"
proof (intro conjI impI)
  show "balance_classes X [] = Inl ValueError" by (rule balance_classes_no_class)
next
  assume "data_loader phoneme_states_train layer_idx (Some target_phonemes) = Inr ([], [])"
  then show "probe_layer fit predict phoneme_states_train phoneme_states_test target_phonemes layer_idx
              = Inl ValueError"
    by (simp add: probe_layer_def balance_classes_no_class)
next
  assume "ps \<noteq> [] \<and> (\<forall>p \<in> set ps. snd p = c)"
  then have "ps \<noteq> []" "\<forall>p \<in> set ps. snd p = c" by (rule conjunct1, rule conjunct2)
  then show "balance_classes (map fst ps) (map snd ps) = Inr (map fst ps, map snd ps)"
    by (rule balance_classes_single_class)
next
  assume a: "data_loader phoneme_states_train layer_idx (Some target_phonemes) = Inr (train_X, train_y)
        \<and> balance_classes train_X train_y = Inr (train_X', train_y')
        \<and> fit layer_idx train_X' train_y' = Inr probe
        \<and> data_loader phoneme_states_test layer_idx (Some target_phonemes) = Inr (map fst ps, map snd ps)
        \<and> ps \<noteq> [] \<and> (\<forall>p \<in> set ps. snd p = c)
        \<and> predict probe (map fst ps) = Inr test_pred"
  from a have 1: "data_loader phoneme_states_train layer_idx (Some target_phonemes) = Inr (train_X, train_y)"
    by (rule conjunct1)
  from a have 2: "balance_classes train_X train_y = Inr (train_X', train_y')"
    by (elim conjE)
  from a have 3: "fit layer_idx train_X' train_y' = Inr probe"
    by (elim conjE)
  from a have 4: "data_loader phoneme_states_test layer_idx (Some target_phonemes) = Inr (map fst ps, map snd ps)"
    by (elim conjE)
  from a have 5: "ps \<noteq> []" by (elim conjE)
  from a have 6: "\<forall>p \<in> set ps. snd p = c" by (elim conjE)
  from a have 7: "predict probe (map fst ps) = Inr test_pred" by (elim conjE)
  have b: "balance_classes (map fst ps) (map snd ps) = Inr (map fst ps, map snd ps)"
    using 5 6 by (rule balance_classes_single_class)
  show run: "probe_layer fit predict phoneme_states_train phoneme_states_test target_phonemes layer_idx
              = accuracy_score (map snd ps) test_pred"
    unfolding probe_layer_def by (simp only: 1 2 3 4 b 7 sum.case prod.case)
  assume "test_pred = replicate (length ps) c"
  moreover have "map snd ps \<noteq> []" using 5 by simp
  moreover have "\<forall>y \<in> set (map snd ps). y = c" using 6 by simp
  ultimately show "probe_layer fit predict phoneme_states_train phoneme_states_test
                       target_phonemes layer_idx = Inr 1"
    using run accuracy_score_all_equal[of "map snd ps" c] by simp
qed

theorem degenerate_dataset_not_checked_witness:
  "data_loader [(0, [(''l'', [Some (9::nat)])])] 0 (Some [''m'', ''n'', ''ng'']) = Inr ([], [])
   \<and> probe_layer (\<lambda>l X y. Inr y) (\<lambda>probe X. Inr (replicate (length X) (hd probe)))
        [(0, [(''l'', [Some (9::nat)])])] [(0, [(''n'', [Some 4, Some 5, Some 6])])]
        [''m'', ''n'', ''ng''] 0 = Inl ValueError
   \<and> [(4::nat, ''n''), (5, ''n''), (6, ''n'')] \<noteq> []
   \<and> balance_classes [4::nat, 5, 6] [''n'', ''n'', ''n''] = Inr ([4, 5, 6], [''n'', ''n'', ''n''])
   \<and> probe_layer (\<lambda>l X y. Inr y) (\<lambda>probe X. Inr (replicate (length X) (hd probe)))
        [(0, [(''n'', [Some (11::nat), Some 12]), (''ng'', [Some 13])])]
        [(0, [(''n'', [Some 4, Some 5, Some 6])])] [''m'', ''n'', ''ng''] 0 = Inr 1"
proof -
  let ?T = "[''m'', ''n'', ''ng'']"
  let ?fit = "\<lambda>(l :: nat) (X :: nat list) (y :: string list). (Inr y :: error + string list)"
  let ?predict = "\<lambda>(probe :: string list) (X :: nat list).
                    (Inr (replicate (length X) (hd probe)) :: error + string list)"
  let ?empty = "[(0, [(''l'', [Some (9::nat)])])] :: nat option phoneme_table"
  let ?train = "[(0, [(''n'', [Some (11::nat), Some 12]), (''ng'', [Some 13])])] :: nat option phoneme_table"
  let ?test = "[(0, [(''n'', [Some (4::nat), Some 5, Some 6])])] :: nat option phoneme_table"
  let ?ps = "[(4::nat, ''n''), (5, ''n''), (6, ''n'')]"
  note c = degenerate_dataset_not_checked
  note c2 = c[THEN conjunct2, THEN conjunct1, rule_format]
  note c3 = c[THEN conjunct2, THEN conjunct2, THEN conjunct1, rule_format]
  note c4 = c[THEN conjunct2, THEN conjunct2, THEN conjunct2, rule_format]
  have m: "map_of phoneme_mapping ''n'' = Some ''n''" "map_of phoneme_mapping ''ng'' = Some ''ng''"
    by (simp_all add: phoneme_mapping_def)
  have e: "data_loader ?empty 0 (Some ?T) = Inr ([], [])"
    by (simp add: data_loader_def dict_getitem_def)
  have 1: "probe_layer ?fit ?predict ?empty ?test ?T 0 = Inl ValueError"
    using e by (rule c2)
  have ne: "?ps \<noteq> [] \<and> (\<forall>p \<in> set ?ps. snd p = ''n'')" by simp
  from c3[OF ne]
  have 2: "balance_classes [4::nat, 5, 6] [''n'', ''n'', ''n''] = Inr ([4, 5, 6], [''n'', ''n'', ''n''])"
    by simp
  have tr: "data_loader ?train 0 (Some ?T) = Inr ([11, 12, 13], [''n'', ''n'', ''ng''])"
    by (simp add: data_loader_def dict_getitem_def m)
  have trb: "balance_classes [11::nat, 12, 13] [''n'', ''n'', ''ng''] = Inr ([11, 13], [''n'', ''ng''])"
    by (simp add: balance_classes_def Counter_def)
  have te: "data_loader ?test 0 (Some ?T) = Inr (map fst ?ps, map snd ?ps)"
    by (simp add: data_loader_def dict_getitem_def m)
  have hyp: "data_loader ?train 0 (Some ?T) = Inr ([11, 12, 13], [''n'', ''n'', ''ng''])
        \<and> balance_classes [11::nat, 12, 13] [''n'', ''n'', ''ng''] = Inr ([11, 13], [''n'', ''ng''])
        \<and> ?fit 0 [11, 13] [''n'', ''ng''] = Inr [''n'', ''ng'']
        \<and> data_loader ?test 0 (Some ?T) = Inr (map fst ?ps, map snd ?ps)
        \<and> ?ps \<noteq> [] \<and> (\<forall>p \<in> set ?ps. snd p = ''n'')
        \<and> ?predict [''n'', ''ng''] (map fst ?ps) = Inr (replicate (length ?ps) ''n'')"
    using tr trb te by simp
  note run = c4[of ?train 0 ?T "[11, 12, 13]" "[''n'', ''n'', ''ng'']" "[11, 13]" "[''n'', ''ng'']" ?fit
          "[''n'', ''ng'']" ?test ?ps "''n''" ?predict "replicate (length ?ps) ''n''", OF hyp]
  have 3: "probe_layer ?fit ?predict ?train ?test ?T 0 = Inr 1"
    by (rule run[THEN conjunct2, THEN mp]) (rule refl)
  from e 1 2 3 show ?thesis by simp
qed

text \<open>
  Claim C6 as stated fails. Under the targets \<open>m\<close>, \<open>n\<close>, \<open>ng\<close>, a test table with
  states of \<open>m\<close> only gives a balanced test set of one class, returned without any
  error. With a probe that predicts the first training label for every vector, the
  body of the loop returns the accuracy 1 and the loop records it.
\<close>

theorem degenerate_dataset_not_checked_counterexample:
  "data_loader [(0, [(''m'', [Some (4::nat), Some 5])])] 0 (Some [''m'', ''n'', ''ng''])
     = Inr ([4, 5], [''m'', ''m''])
   \<and> balance_classes [4::nat, 5] [''m'', ''m''] = Inr ([4, 5], [''m'', ''m''])
   \<and> probe_layer (\<lambda>l X y. Inr y) (\<lambda>probe X. Inr (replicate (length X) (hd probe)))
        [(0, [(''m'', [Some (11::nat), Some 12]), (''n'', [Some 13])])]
        [(0, [(''m'', [Some 4, Some 5])])] [''m'', ''n'', ''ng''] 0 = Inr 1
   \<and> layers_probe_loop (\<lambda>l X y. Inr y) (\<lambda>probe X. Inr (replicate (length X) (hd probe)))
        [(0, [(''m'', [Some (11::nat), Some 12]), (''n'', [Some 13])])]
        [(0, [(''m'', [Some 4, Some 5])])] [''m'', ''n'', ''ng''] [0] [] = Inr [1]"
proof -
  have m: "map_of phoneme_mapping ''m'' = Some ''m''" "map_of phoneme_mapping ''n'' = Some ''n''"
    by (simp_all add: phoneme_mapping_def)
  have te: "data_loader [(0, [(''m'', [Some (4::nat), Some 5])])] 0 (Some [''m'', ''n'', ''ng''])
     = Inr ([4, 5], [''m'', ''m''])"
    by (simp add: data_loader_def dict_getitem_def m)
  have teb: "balance_classes [4::nat, 5] [''m'', ''m''] = Inr ([4, 5], [''m'', ''m''])"
    by (simp add: balance_classes_def Counter_def)
  have tr: "data_loader [(0, [(''m'', [Some (11::nat), Some 12]), (''n'', [Some 13])])] 0
              (Some [''m'', ''n'', ''ng'']) = Inr ([11, 12, 13], [''m'', ''m'', ''n''])"
    by (simp add: data_loader_def dict_getitem_def m)
  have trb: "balance_classes [11::nat, 12, 13] [''m'', ''m'', ''n''] = Inr ([11, 13], [''m'', ''n''])"
    by (simp add: balance_classes_def Counter_def)
  have p: "probe_layer (\<lambda>l X y. Inr y) (\<lambda>probe X. Inr (replicate (length X) (hd probe)))
        [(0, [(''m'', [Some (11::nat), Some 12]), (''n'', [Some 13])])]
        [(0, [(''m'', [Some 4, Some 5])])] [''m'', ''n'', ''ng''] 0 = (Inr 1 :: error + rat)"
    unfolding probe_layer_def by (simp add: te teb tr trb accuracy_score_def)
  from te teb p show ?thesis by simp
qed

end
